theory Spec2Isabelle
  imports Main "HOL-Library.Sublist"
begin

section \<open>Text, exceptions and the interpreter's character tables\<close>

text \<open>
  A Python \<open>str\<close> is a sequence of Unicode code points; \<open>len\<close>, indexing and the
  \<open>re\<close> module all count code points. A string is therefore a list of code points
  (the integers that \<open>ord\<close> returns), and \<open>cp\<close> reads an ASCII literal as one.
\<close>

type_synonym str = "int list"

definition cp :: "string \<Rightarrow> str" where
  "cp s = map of_char s"

datatype exn = ValueError | TypeError

text \<open>
  The program reaches three tables of the interpreter's Unicode database through
  \<open>re\<close>, \<open>int\<close> and \<open>str.lower\<close>, and one setting of the interpreter through \<open>int\<close>.
  They are not part of the repository, so the model takes them as a parameter:
  \<^item> \<open>to_decimal c\<close>: the decimal value of \<open>c\<close> when \<open>c\<close> is a decimal digit (what \<open>\d\<close>
    matches and what \<open>int\<close> reads), \<open>None\<close> otherwise;
  \<^item> \<open>is_alnum c\<close>: \<open>c\<close> is alphanumeric (\<open>\w\<close> is alphanumeric or the underscore);
  \<^item> \<open>str_lower s\<close>: \<open>s.lower()\<close>;
  \<^item> \<open>int_max_str_digits\<close>: \<open>sys.get_int_max_str_digits()\<close>, the longest decimal string that
    \<open>int\<close> converts; \<open>0\<close> stands for no limit (as on interpreters that have no such
    setting), and \<open>4300\<close> is the value of an interpreter that was not configured.
\<close>

record pyrt =
  to_decimal :: "int \<Rightarrow> int option"
  is_alnum :: "int \<Rightarrow> bool"
  str_lower :: "str \<Rightarrow> str"
  int_max_str_digits :: int

definition is_decimal :: "pyrt \<Rightarrow> int \<Rightarrow> bool" where
  "is_decimal db c = (to_decimal db c \<noteq> None)"

text \<open>
  Whitespace is the same set for \<open>\s\<close> in a \<open>str\<close> pattern and for \<open>str.strip()\<close>:
  the code points for which \<open>str.isspace\<close> holds.
\<close>

definition is_space :: "int \<Rightarrow> bool" where
  "is_space c =
     ((0x09 \<le> c \<and> c \<le> 0x0D) \<or> (0x1C \<le> c \<and> c \<le> 0x20) \<or> c = 0x85 \<or> c = 0xA0 \<or>
      c = 0x1680 \<or> (0x2000 \<le> c \<and> c \<le> 0x200A) \<or> c = 0x2028 \<or> c = 0x2029 \<or>
      c = 0x202F \<or> c = 0x205F \<or> c = 0x3000)"

text \<open>\<open>\w\<close>, for the word boundary \<open>\b\<close>.\<close>

definition is_word :: "pyrt \<Rightarrow> int \<Rightarrow> bool" where
  "is_word db c = (is_alnum db c \<or> c = 0x5F)"

text \<open>\<open>s.strip()\<close>: whitespace removed at both ends.\<close>

definition strip :: "str \<Rightarrow> str" where
  "strip s = rev (dropWhile is_space (rev (dropWhile is_space s)))"

text \<open>
  \<open>re.sub(r"\s+", " ", s)\<close>: scanning from the left, every maximal run of whitespace is
  replaced by one space (U+0020).
\<close>

function re_sub_ws :: "str \<Rightarrow> str" where
  "re_sub_ws [] = []"
| "re_sub_ws (c # cs) =
     (if is_space c then 0x20 # re_sub_ws (dropWhile is_space cs) else c # re_sub_ws cs)"
  by pat_completeness auto
termination
  by (relation "measure length") (auto simp: length_dropWhile_le less_Suc_eq_le)

definition normalize_str :: "pyrt \<Rightarrow> str \<Rightarrow> str" where
  "normalize_str db s = str_lower db (strip (re_sub_ws s))"

text \<open>\<open>re.sub(r"[^\d]", "", s)\<close>: every character that is not a decimal digit is deleted.\<close>

definition re_sub_nondigit :: "pyrt \<Rightarrow> str \<Rightarrow> str" where
  "re_sub_nondigit db s = filter (is_decimal db) s"

text \<open>
  \<open>int(s)\<close> on the strings this program passes to it, which hold decimal digits only:
  the empty string raises \<open>ValueError\<close>, a string of decimal digits is read in base ten.
  Python integers are unbounded, but the conversion is not: a string of more digits than
  \<open>sys.get_int_max_str_digits()\<close> raises \<open>ValueError\<close>. Leading zeros count. Strings of up
  to 640 digits (\<open>sys.int_info.str_digits_check_threshold\<close>) are always converted; the
  interpreter accepts no limit below that.
\<close>

definition digit_value :: "pyrt \<Rightarrow> int \<Rightarrow> int" where
  "digit_value db c = (case to_decimal db c of None \<Rightarrow> 0 | Some d \<Rightarrow> d)"

definition int_value :: "pyrt \<Rightarrow> str \<Rightarrow> int" where
  "int_value db s = foldl (\<lambda>acc c. acc * 10 + digit_value db c) 0 s"

definition too_many_digits :: "pyrt \<Rightarrow> str \<Rightarrow> bool" where
  "too_many_digits db s =
     (640 < int (length s) \<and> 0 < int_max_str_digits db \<and> int_max_str_digits db < int (length s))"

definition py_int :: "pyrt \<Rightarrow> str \<Rightarrow> exn + int" where
  "py_int db s =
     (if s \<noteq> [] \<and> list_all (is_decimal db) s \<and> \<not> too_many_digits db s
      then Inr (int_value db s) else Inl ValueError)"

section \<open>Calendar timestamps\<close>

record datetime =
  year :: int
  month :: int
  day :: int
  hour :: int
  minute :: int
  second :: int

definition is_leap :: "int \<Rightarrow> bool" where
  "is_leap y = (y mod 4 = 0 \<and> (y mod 100 \<noteq> 0 \<or> y mod 400 = 0))"

definition days_in_month :: "int \<Rightarrow> int \<Rightarrow> int" where
  "days_in_month y m =
     (if m = 2 then (if is_leap y then 29 else 28)
      else if m = 4 \<or> m = 6 \<or> m = 9 \<or> m = 11 then 30 else 31)"

text \<open>
  \<open>datetime(y, m, d, hh, mi, ss)\<close>, as documented: the constructor raises \<open>ValueError\<close>
  unless every component is in range (years 1 to 9999, the day within the month of that
  year). The components this program passes are read from at most four digits.
\<close>

definition datetime_new :: "int \<Rightarrow> int \<Rightarrow> int \<Rightarrow> int \<Rightarrow> int \<Rightarrow> int \<Rightarrow> exn + datetime" where
  "datetime_new y m d hh mi ss =
     (if 1 \<le> y \<and> y \<le> 9999 \<and> 1 \<le> m \<and> m \<le> 12 \<and> 1 \<le> d \<and> d \<le> days_in_month y m \<and>
         0 \<le> hh \<and> hh \<le> 23 \<and> 0 \<le> mi \<and> mi \<le> 59 \<and> 0 \<le> ss \<and> ss \<le> 59
      then Inr \<lparr>year = y, month = m, day = d, hour = hh, minute = mi, second = ss\<rparr>
      else Inl ValueError)"

section \<open>Regular expressions\<close>

text \<open>
  The fragment of \<open>re\<close> that the program's patterns use. A character class lists what
  one character may be; \<open>Rep lo hi r\<close> is the greedy \<open>r{lo,hi}\<close> (\<open>hi = None\<close>: no upper
  bound); \<open>Grp k r\<close> is the capturing group number \<open>k\<close>; \<open>Look r\<close> is the lookahead
  \<open>(?=r)\<close>; \<open>WordB\<close> is \<open>\b\<close>.
\<close>

datatype cls = Lit int | Digit | Space

fun cls_match :: "pyrt \<Rightarrow> cls \<Rightarrow> int \<Rightarrow> bool" where
  "cls_match db (Lit k) c = (c = k)"
| "cls_match db Digit c = is_decimal db c"
| "cls_match db Space c = is_space c"

datatype re =
    One "cls list"
  | Seq re re
  | Alt re re
  | Rep nat "nat option" re
  | Grp nat re
  | Look re
  | WordB

text \<open>
  A matcher state is the character before the current position (\<open>None\<close> at the start of
  the text), the text from the current position on, and the groups captured so far.
\<close>

type_synonym groups = "nat \<rightharpoonup> str"
type_synonym mstate = "int option \<times> str \<times> groups"

text \<open>
  \<open>\b\<close> holds where exactly one of the two neighbouring characters is a word character;
  outside the text there is none.
\<close>

definition at_boundary :: "pyrt \<Rightarrow> int option \<Rightarrow> str \<Rightarrow> bool" where
  "at_boundary db p s =
     ((case p of None \<Rightarrow> False | Some c \<Rightarrow> is_word db c) \<noteq>
      (case s of [] \<Rightarrow> False | c # _ \<Rightarrow> is_word db c))"

text \<open>
  The backtracking matcher returns every way to match from a state, in the order in which
  backtracking tries them: its first element is the match \<open>re\<close> reports. A greedy
  repetition tries one more iteration before it tries to stop.
\<close>

fun rep :: "(mstate \<Rightarrow> mstate list) \<Rightarrow> nat \<Rightarrow> nat \<Rightarrow> mstate \<Rightarrow> mstate list" where
  "rep f lo 0 st = (if lo = 0 then [st] else [])"
| "rep f lo (Suc hi) st =
     concat (map (rep f (lo - 1) hi) (f st)) @ (if lo = 0 then [st] else [])"

text \<open>
  Every repeated body in this program consumes at least one character, so an unbounded
  repetition iterates at most as often as characters remain. A lookahead succeeds at most
  once and keeps the position; a group records the text its body consumed.
\<close>

primrec ms :: "re \<Rightarrow> pyrt \<Rightarrow> mstate \<Rightarrow> mstate list" where
  "ms (One cs) db st =
     (case fst (snd st) of [] \<Rightarrow> []
      | c # r \<Rightarrow> if list_ex (\<lambda>k. cls_match db k c) cs then [(Some c, r, snd (snd st))] else [])"
| "ms (Seq a b) db st = concat (map (ms b db) (ms a db st))"
| "ms (Alt a b) db st = ms a db st @ ms b db st"
| "ms (Rep lo hi a) db st =
     rep (ms a db) lo (case hi of None \<Rightarrow> length (fst (snd st)) | Some h \<Rightarrow> h) st"
| "ms (Grp k a) db st =
     map (\<lambda>(p, r, g). (p, r, g(k \<mapsto> take (length (fst (snd st)) - length r) (fst (snd st)))))
       (ms a db st)"
| "ms (Look a) db st =
     (case ms a db st of [] \<Rightarrow> [] | (p, r, g) # _ \<Rightarrow> [(fst st, fst (snd st), g)])"
| "ms WordB db st = (if at_boundary db (fst st) (fst (snd st)) then [st] else [])"

text \<open>
  \<open>re.search\<close> tries every start position from the left, the end of the text included,
  and reports the first match of the leftmost position that has one.
\<close>

fun search :: "re \<Rightarrow> pyrt \<Rightarrow> int option \<Rightarrow> str \<Rightarrow> mstate option" where
  "search r db p [] = (case ms r db (p, [], Map.empty) of [] \<Rightarrow> None | m # _ \<Rightarrow> Some m)"
| "search r db p (c # cs) =
     (case ms r db (p, c # cs, Map.empty) of [] \<Rightarrow> search r db (Some c) cs | m # _ \<Rightarrow> Some m)"

definition re_search :: "re \<Rightarrow> pyrt \<Rightarrow> str \<Rightarrow> groups option" where
  "re_search r db s = map_option (\<lambda>m. snd (snd m)) (search r db None s)"

text \<open>
  \<open>re.finditer\<close> resumes the search where the previous match ended. The only pattern
  iterated in this program consumes a digit in every match; a match that consumed nothing
  would need the rule of \<open>re\<close> for empty matches, which is left out: the iteration stops.
\<close>

function finditer :: "re \<Rightarrow> pyrt \<Rightarrow> int option \<Rightarrow> str \<Rightarrow> groups list" where
  "finditer r db p s =
     (case search r db p s of None \<Rightarrow> []
      | Some (p', s', g) \<Rightarrow> g # (if length s' < length s then finditer r db p' s' else []))"
  by pat_completeness auto
termination
  by (relation "measure (\<lambda>(r, db, p, s). length s)") auto

declare finditer.simps [simp del]

section \<open>The amount extractor\<close>

text \<open>
  The pattern of \<open>guess_amount\<close>, compiled with \<open>re.IGNORECASE\<close>:
  \<^verbatim>\<open>(\d{1,3}(?:[,\s]\d{3})+|\d{4,})(?=\s*(?:W|krw|S)?\b)\<close>
  where \<^verbatim>\<open>W\<close> stands for the Hangul syllable U+C6D0 (won) and \<^verbatim>\<open>S\<close> for the won sign
  U+20A9. Ignoring case, \<open>k\<close> also matches \<open>K\<close> and the Kelvin sign U+212A, \<open>r\<close> matches
  \<open>R\<close>, \<open>w\<close> matches \<open>W\<close>; the other characters of the pattern have no case.
\<close>

definition amount_token_re :: re where
  "amount_token_re =
     Alt (Seq (Rep 1 (Some 3) (One [Digit]))
              (Rep 1 None (Seq (One [Lit 0x2C, Space]) (Rep 3 (Some 3) (One [Digit])))))
         (Rep 4 None (One [Digit]))"

definition currency_re :: re where
  "currency_re =
     Alt (One [Lit 0xC6D0])
    (Alt (Seq (One [Lit 0x6B, Lit 0x4B, Lit 0x212A])
         (Seq (One [Lit 0x72, Lit 0x52]) (One [Lit 0x77, Lit 0x57])))
         (One [Lit 0x20A9]))"

definition amount_re :: re where
  "amount_re =
     Seq (Grp 1 amount_token_re)
         (Look (Seq (Rep 0 None (One [Space])) (Seq (Rep 0 (Some 1) currency_re) WordB)))"

text \<open>
  The loop over the matches: \<open>val = int(re.sub(r"[^\d]", "", m.group(1)))\<close>, appended
  to \<open>candidates\<close>.
\<close>

fun amount_values :: "pyrt \<Rightarrow> groups list \<Rightarrow> exn + int list" where
  "amount_values db [] = Inr []"
| "amount_values db (g # gs) =
     (case g 1 of None \<Rightarrow> Inl TypeError
      | Some tok \<Rightarrow>
          (case py_int db (re_sub_nondigit db tok) of Inl e \<Rightarrow> Inl e
           | Inr v \<Rightarrow>
               (case amount_values db gs of Inl e \<Rightarrow> Inl e | Inr vs \<Rightarrow> Inr (v # vs))))"

text \<open>\<open>max(xs)\<close> raises \<open>ValueError\<close> on an empty list.\<close>

fun py_max :: "int list \<Rightarrow> exn + int" where
  "py_max [] = Inl ValueError"
| "py_max (x # xs) = Inr (foldl max x xs)"

definition guess_amount :: "pyrt \<Rightarrow> str \<Rightarrow> exn + int option" where
  "guess_amount db txt =
     (case amount_values db (finditer amount_re db None txt) of Inl e \<Rightarrow> Inl e
      | Inr candidates \<Rightarrow>
          (let big = filter (\<lambda>v. 1000 \<le> v) candidates in
           if big \<noteq> [] then map_sum id Some (py_max big)
           else if candidates \<noteq> [] then map_sum id Some (py_max candidates)
           else Inr None))"

section \<open>The date and time extractor\<close>

text \<open>
  The patterns of \<open>guess_datetime\<close>:
  \<^verbatim>\<open>(\d{4})[.\-\/](\d{1,2})[.\-\/](\d{1,2})\<close>,
  \<^verbatim>\<open>(\d{2})[.\-\/](\d{1,2})[.\-\/](\d{1,2})\<close> and
  \<^verbatim>\<open>(\d{1,2}):(\d{2})(?::(\d{2}))?\<close>.
\<close>

definition date_sep :: re where
  "date_sep = One [Lit 0x2E, Lit 0x2D, Lit 0x2F]"

definition date_tail :: re where
  "date_tail =
     Seq date_sep (Seq (Grp 2 (Rep 1 (Some 2) (One [Digit])))
    (Seq date_sep (Grp 3 (Rep 1 (Some 2) (One [Digit])))))"

definition date_patts :: "re list" where
  "date_patts =
     [Seq (Grp 1 (Rep 4 (Some 4) (One [Digit]))) date_tail,
      Seq (Grp 1 (Rep 2 (Some 2) (One [Digit]))) date_tail]"

definition time_patt :: re where
  "time_patt =
     Seq (Grp 1 (Rep 1 (Some 2) (One [Digit])))
    (Seq (One [Lit 0x3A])
    (Seq (Grp 2 (Rep 2 (Some 2) (One [Digit])))
         (Rep 0 (Some 1) (Seq (One [Lit 0x3A]) (Grp 3 (Rep 2 (Some 2) (One [Digit])))))))"

text \<open>\<open>int(m.group(k))\<close>; \<open>int(None)\<close> raises \<open>TypeError\<close>.\<close>

definition int_group :: "pyrt \<Rightarrow> groups \<Rightarrow> nat \<Rightarrow> exn + int" where
  "int_group db g k = (case g k of None \<Rightarrow> Inl TypeError | Some s \<Rightarrow> py_int db s)"

text \<open>
  The loop over \<open>date_patts\<close>: the first pattern that matches anywhere decides, and
  \<open>break\<close> leaves the loop. The result is \<open>(yy, mm, dd)\<close>, or \<open>None\<close> when all three are
  still \<open>None\<close>.
\<close>

fun date_loop :: "pyrt \<Rightarrow> str \<Rightarrow> re list \<Rightarrow> exn + (int \<times> int \<times> int) option" where
  "date_loop db txt [] = Inr None"
| "date_loop db txt (dp # dps) =
     (case re_search dp db txt of None \<Rightarrow> date_loop db txt dps
      | Some g \<Rightarrow>
          (case int_group db g 1 of Inl e \<Rightarrow> Inl e
           | Inr a \<Rightarrow>
          (case int_group db g 2 of Inl e \<Rightarrow> Inl e
           | Inr b \<Rightarrow>
          (case int_group db g 3 of Inl e \<Rightarrow> Inl e
           | Inr c \<Rightarrow>
               if map_option length (g 1) = Some 4 then Inr (Some (a, b, c))
               else Inr (Some (2000 + a, b, c))))))"

text \<open>
  The time: \<open>hh, mi, ss\<close> start at 0; group 3 is read only when it is set (a set group
  holds two digits, so it is never the empty string).
\<close>

definition time_part :: "pyrt \<Rightarrow> str \<Rightarrow> exn + (int \<times> int \<times> int)" where
  "time_part db txt =
     (case re_search time_patt db txt of None \<Rightarrow> Inr (0, 0, 0)
      | Some g \<Rightarrow>
          (case int_group db g 1 of Inl e \<Rightarrow> Inl e
           | Inr hh \<Rightarrow>
          (case int_group db g 2 of Inl e \<Rightarrow> Inl e
           | Inr mi \<Rightarrow>
               (case g 3 of None \<Rightarrow> Inr (hh, mi, 0)
                | Some s3 \<Rightarrow>
                    if s3 = [] then Inr (hh, mi, 0)
                    else (case py_int db s3 of Inl e \<Rightarrow> Inl e | Inr ss \<Rightarrow> Inr (hh, mi, ss))))))"

text \<open>
  \<open>if yy and mm and dd\<close>: a component that is \<open>None\<close> or 0 skips the construction. Only
  \<open>ValueError\<close> is caught around the constructor.
\<close>

definition guess_datetime :: "pyrt \<Rightarrow> str \<Rightarrow> exn + datetime option" where
  "guess_datetime db txt =
     (case date_loop db txt date_patts of Inl e \<Rightarrow> Inl e
      | Inr ymd \<Rightarrow>
     (case time_part db txt of Inl e \<Rightarrow> Inl e
      | Inr (hh, mi, ss) \<Rightarrow>
          (case ymd of None \<Rightarrow> Inr None
           | Some (yy, mm, dd) \<Rightarrow>
               if yy \<noteq> 0 \<and> mm \<noteq> 0 \<and> dd \<noteq> 0
               then (case datetime_new yy mm dd hh mi ss of
                       Inl ValueError \<Rightarrow> Inr None
                     | Inl e \<Rightarrow> Inl e
                     | Inr d \<Rightarrow> Inr (Some d))
               else Inr None)))"

section \<open>The category classifier\<close>

text \<open>
  \<open>CATEGORY_RULES\<close>, in the order of the dictionary literal (a \<open>dict\<close> iterates in
  insertion order): each category with its keywords.
\<close>

definition CATEGORY_RULES :: "(str \<times> str list) list" where
  "CATEGORY_RULES =
   [
    ([0xD3B8, 0xC758, 0xC810],
     [cp ''gs25'',
      cp ''cu'',
      [0xC138, 0xBE10, 0xC77C, 0xB808, 0xBE10],
      cp ''ministop'',
      cp ''emart24'',
      [0xC774, 0xB9C8, 0xD2B8] @ cp ''24'',
      [0xC774, 0xB9C8, 0xD2B8, 0xC5D0, 0xBE0C, 0xB9AC, 0xB370, 0xC774],
      cp ''emarteveryday'']),
    ([0xCE74, 0xD398],
     [[0xC2A4, 0xD0C0, 0xBC85, 0xC2A4],
      [0xC774, 0xB514, 0xC57C, 0xCEE4, 0xD53C],
      [0xD22C, 0xC378, 0xD50C, 0xB808, 0xC774, 0xC2A4],
      [0xD560, 0xB9AC, 0xC2A4],
      [0xBA54, 0xAC00] @ cp ''MGC'' @ [0xCEE4, 0xD53C],
      [0xBA54, 0xAC00, 0xCEE4, 0xD53C],
      [0xCEF4, 0xD3EC, 0xC988, 0xCEE4, 0xD53C],
      [0xBE7D, 0xB2E4, 0xBC29],
      [0xB354, 0xBCA4, 0xD2F0],
      [0xD3F4, 0xBC14, 0xC14B],
      [0xD30C, 0xC2A4, 0xCFE0, 0xCC0C],
      [0xB4DC, 0xB86D, 0xD0D1],
      [0xCEE4, 0xD53C, 0xBE48],
      [0xACF5, 0xCC28],
      [0xC96C, 0xC528],
      [0xB2EC, 0xCF64],
      [0xC694, 0xAC70, 0xD504, 0xB808, 0xC18C],
      [0xB354, 0xCE74, 0xD398],
      [0xD14C, 0xB77C, 0xB85C, 0xC0AC],
      [0xCE74, 0xD398, 0xBCA0, 0xB124],
      [0xCEE4, 0xD53C]]),
    ([0xC2DD, 0xB2F9],
     [[0xC2DD, 0xB2F9],
      [0xBD84, 0xC2DD],
      [0xCE58, 0xD0A8],
      [0xD53C, 0xC790],
      [0xC871, 0xBC1C],
      [0xB0C9, 0xBA74],
      [0xCE7C, 0xAD6D, 0xC218],
      [0xAE40, 0xBC25],
      [0xAD6D, 0xBC25],
      [0xD55C, 0xC1A5],
      [0xBC84, 0xAC70],
      [0xB9E5, 0xB3C4, 0xB0A0, 0xB4DC],
      [0xB86F, 0xB370, 0xB9AC, 0xC544],
      [0xBC84, 0xAC70, 0xD0B9]]),
    ([0xB9C8, 0xD2B8],
     [[0xC774, 0xB9C8, 0xD2B8],
      [0xD648, 0xD50C, 0xB7EC, 0xC2A4],
      [0xB86F, 0xB370, 0xB9C8, 0xD2B8],
      [0xB178, 0xBE0C, 0xB79C, 0xB4DC],
      [0xCF54, 0xC2A4, 0xD2B8, 0xCF54],
      [0xB9C8, 0xD2B8],
      [0xC288, 0xD37C]]),
    ([0xBC30, 0xB2EC],
     [[0xBC30, 0xB2EC, 0xC758, 0xBBFC, 0xC871],
      [0xCFE0, 0xD321, 0xC774, 0xCE20],
      [0xC694, 0xAE30, 0xC694],
      [0xB51C, 0xB9AC, 0xBC84, 0xB9AC]]),
    ([0xAD50, 0xD1B5],
     [[0xBC84, 0xC2A4],
      [0xC9C0, 0xD558, 0xCCA0],
      [0xD0DD, 0xC2DC],
      [0xCF54, 0xB808, 0xC77C],
      [0xCCA0, 0xB3C4],
      [0xACE0, 0xC18D],
      [0xAD50, 0xD1B5],
      [0xD2F0, 0xBA38, 0xB2C8]]),
    ([0xC758, 0xB8CC, 0x002F, 0xC57D, 0xAD6D],
     [[0xC57D, 0xAD6D],
      [0xBCD1, 0xC6D0],
      [0xC758, 0xC6D0],
      [0xCE58, 0xACFC],
      [0xC758, 0xBB34],
      [0xBA54, 0xB514, 0xCE7C],
      [0xCC98, 0xBC29]]),
    ([0xC1FC, 0xD551],
     [[0xBB34, 0xC2E0, 0xC0AC],
      [0xCFE0, 0xD321],
      [0xB124, 0xC774, 0xBC84, 0xD398, 0xC774],
      cp ''11'' @ [0xBC88, 0xAC00],
      [0xC9C0, 0xB9C8, 0xCF13],
      [0xC625, 0xC158],
      [0xB9C8, 0xCF13, 0xCEEC, 0xB9AC],
      cp ''ssg'',
      [0xC704, 0xBA54, 0xD504],
      [0xD2F0, 0xBAAC],
      [0xB86F, 0xB370, 0xC628]]),
    ([0xBB38, 0xD654, 0x002F, 0xC5EC, 0xAC00],
     [[0xC601, 0xD654],
      cp ''CGV'',
      [0xBA54, 0xAC00, 0xBC15, 0xC2A4],
      [0xB86F, 0xB370, 0xC2DC, 0xB124, 0xB9C8],
      [0xB137, 0xD50C, 0xB9AD, 0xC2A4],
      [0xBBA4, 0xC9C0, 0xCEEC],
      [0xACF5, 0xC5F0],
      [0xB178, 0xB798, 0xBC29]])
   ]"

text \<open>The category returned when nothing scores (U+AE30 U+D0C0, "other").\<close>

definition uncategorized :: str where
  "uncategorized = [0xAE30, 0xD0C0]"

text \<open>
  A loaded vendor pattern is the compiled expression, its category and its vendor. The
  expressions come from a file outside the repository and may use all of \<open>re\<close>, so a
  pattern is represented by its search: \<open>pat t\<close> holds when \<open>pat.search(t)\<close> finds a match.
\<close>

type_synonym vendor_pattern = "(str \<Rightarrow> bool) \<times> str \<times> str"

fun vendor_lookup :: "vendor_pattern list \<Rightarrow> str \<Rightarrow> str option" where
  "vendor_lookup [] t = None"
| "vendor_lookup ((pat, cat, vendor) # rest) t =
     (if pat t then Some cat else vendor_lookup rest t)"

text \<open>The inner loop: \<open>s += 1\<close> for every keyword \<open>kw\<close> with \<open>kw.lower() in t\<close>.\<close>

definition kw_score :: "pyrt \<Rightarrow> str \<Rightarrow> str list \<Rightarrow> nat" where
  "kw_score db t kws = length (filter (\<lambda>kw. sublist (str_lower db kw) t) kws)"

text \<open>
  The dictionary \<open>score\<close>: the categories with a positive score, in the order in which
  the loop inserted them (the keys of \<open>CATEGORY_RULES\<close> are distinct, so no entry is
  overwritten).
\<close>

definition score_table :: "pyrt \<Rightarrow> str \<Rightarrow> (str \<times> str list) list \<Rightarrow> (str \<times> nat) list" where
  "score_table db t rules =
     filter (\<lambda>(cat, s). 0 < s) (map (\<lambda>(cat, kws). (cat, kw_score db t kws)) rules)"

text \<open>
  \<open>max(items, key=lambda x: x[1])\<close> on a non-empty sequence: the running best is
  replaced only by a strictly larger key, so the first maximal item is returned.
\<close>

definition max_by_score :: "(str \<times> nat) \<Rightarrow> (str \<times> nat) list \<Rightarrow> (str \<times> nat)" where
  "max_by_score x xs = foldl (\<lambda>best y. if snd best < snd y then y else best) x xs"

definition guess_category :: "pyrt \<Rightarrow> vendor_pattern list \<Rightarrow> str \<Rightarrow> str" where
  "guess_category db vendor_patterns txt =
     (let t = normalize_str db txt in
      case vendor_lookup vendor_patterns t of Some cat \<Rightarrow> cat
      | None \<Rightarrow>
          (case score_table db t CATEGORY_RULES of [] \<Rightarrow> uncategorized
           | x # xs \<Rightarrow> fst (max_by_score x xs)))"

section \<open>Drafts, the pending store and the ledger\<close>

record Pending =
  p_id :: str
  p_filename :: str
  p_category :: str
  p_amount :: "int option"
  p_when :: "datetime option"
  p_ocr_text :: str

text \<open>
  A row of \<open>labels.csv\<close>, column by column. An amount or a timestamp that is \<open>None\<close> is
  written as the empty cell.
\<close>

record ledger_row =
  r_id :: str
  r_filename :: str
  r_category :: str
  r_amount :: "int option"
  r_datetime :: "datetime option"
  r_ocr_text_path :: str

datatype file_content = TextFile str | ImageFile "nat list"

text \<open>
  What the handlers read and write: the dictionary \<open>PENDING\<close>, the rows appended to the
  ledger (oldest first), the files written, and the directory \<open>DATA_DIR\<close>.
\<close>

record world =
  pending :: "str \<rightharpoonup> Pending"
  ledger :: "ledger_row list"
  files :: "str \<rightharpoonup> file_content"
  data_dir :: str

text \<open>\<open>os.path.join(a, b)\<close> for two components, with \<open>/\<close> as the separator.\<close>

definition path_join :: "str \<Rightarrow> str \<Rightarrow> str" where
  "path_join a b =
     (if b \<noteq> [] \<and> hd b = 0x2F then b
      else if a = [] \<or> last a = 0x2F then a @ b
      else a @ [0x2F] @ b)"

definition save_row :: "Pending \<Rightarrow> world \<Rightarrow> world" where
  "save_row p w =
     (let text_path = path_join (data_dir w) (p_id p @ cp ''.txt'') in
      w\<lparr>files := (files w)(text_path \<mapsto> TextFile (p_ocr_text p)),
        ledger := ledger w @
          [\<lparr>r_id = p_id p, r_filename = p_filename p, r_category = p_category p,
            r_amount = p_amount p, r_datetime = p_when p, r_ocr_text_path = text_path\<rparr>]\<rparr>)"

text \<open>
  The messages the two handlers send: \<open>SessionNotFound\<close> and \<open>SavedCorrected\<close> by
  \<open>CorrectionModal.on_submit\<close>, \<open>SessionExpired\<close> and \<open>Saved\<close> by \<open>ReviewView.confirm\<close>.
  The first and the third are the notices for an identifier that has no draft.
\<close>

datatype reply = SessionNotFound | SessionExpired | Saved | SavedCorrected

definition confirm :: "str \<Rightarrow> world \<Rightarrow> world \<times> reply" where
  "confirm pid w =
     (case pending w pid of None \<Rightarrow> (w, SessionExpired)
      | Some p \<Rightarrow> ((save_row p w)\<lparr>pending := (pending (save_row p w))(pid := None)\<rparr>, Saved))"

text \<open>
  The three fields of the correction form. The category is required; the value of an
  optional field may be \<open>None\<close>. The amount field is declared with \<open>max_length=12\<close>: what
  it holds is a string of at most twelve characters, \<open>amount_chars v\<close>. (The other two
  fields are limited to 30 and 25 characters; nothing in the handler depends on that.)
\<close>

typedef amount_input = "{s :: str. length s \<le> 12}"
  morphisms amount_chars amount_input
  by (rule exI[of _ "[]"]) simp

record correction_form =
  t_category :: str
  t_amount :: "amount_input option"
  t_dt :: "str option"

text \<open>
  \<open>on_submit\<close>. The parser \<open>datetime.strptime(dt, "%Y-%m-%d %H:%M:%S")\<close> belongs to the
  standard library and is a parameter: \<open>strptime dt = None\<close> when the call raises.
\<close>

definition on_submit ::
  "pyrt \<Rightarrow> (str \<Rightarrow> datetime option) \<Rightarrow> str \<Rightarrow> correction_form \<Rightarrow> world \<Rightarrow> exn + world \<times> reply" where
  "on_submit db strptime pid form w =
     (case pending w pid of None \<Rightarrow> Inr (w, SessionNotFound)
      | Some p \<Rightarrow>
          (let cat = (if strip (t_category form) = [] then uncategorized
                      else strip (t_category form));
               amt_digits = re_sub_nondigit db
                 (case t_amount form of None \<Rightarrow> [] | Some v \<Rightarrow> amount_chars v)
           in case (if amt_digits = [] then Inr None
                    else map_sum id Some (py_int db amt_digits)) of
                Inl e \<Rightarrow> Inl e
              | Inr amt \<Rightarrow>
                  (let dt = (case t_dt form of None \<Rightarrow> []
                             | Some v \<Rightarrow> if v = [] then [] else strip v);
                       when0 = (if dt = [] then None
                                else (case strptime dt of None \<Rightarrow> p_when p | Some d \<Rightarrow> Some d));
                       p' = p\<lparr>p_category := cat,
                              p_amount := (case amt of None \<Rightarrow> p_amount p | Some a \<Rightarrow> Some a),
                              p_when := (case when0 of None \<Rightarrow> p_when p | Some d \<Rightarrow> Some d)\<rparr>;
                       w' = save_row p' w
                   in Inr (w'\<lparr>pending := (pending w')(pid := None)\<rparr>, SavedCorrected))))"

text \<open>
  \<open>os.path.splitext\<close> with \<open>/\<close> as the separator: the extension starts at the last dot
  of the last path component, unless only dots precede it there.
\<close>

definition rfind :: "int \<Rightarrow> str \<Rightarrow> int" where
  "rfind c s = (if c \<in> set s then int (length s) - 1 - int (length (takeWhile (\<lambda>x. x \<noteq> c) (rev s))) else - 1)"

definition splitext :: "str \<Rightarrow> str \<times> str" where
  "splitext p =
     (let sepIndex = rfind 0x2F p; dotIndex = rfind 0x2E p in
      if sepIndex < dotIndex \<and>
         list_ex (\<lambda>x. x \<noteq> 0x2E) (take (nat (dotIndex - (sepIndex + 1))) (drop (nat (sepIndex + 1)) p))
      then (take (nat dotIndex) p, drop (nat dotIndex) p)
      else (p, []))"

text \<open>
  The part of \<open>on_message\<close> that handles one image attachment: \<open>pid\<close> is the fresh
  \<open>uuid4().hex\<close>, \<open>att_filename\<close> the name of the attachment, \<open>data\<close> its bytes and
  \<open>ocr\<close> the text that \<open>ocr_text\<close> returned for the saved file.
\<close>

definition draft_filename :: "pyrt \<Rightarrow> str \<Rightarrow> str \<Rightarrow> str" where
  "draft_filename db pid att_filename =
     (let ext = (if str_lower db (snd (splitext att_filename)) = [] then cp ''.jpg''
                 else str_lower db (snd (splitext att_filename)))
      in pid @ ext)"

definition process_attachment ::
  "pyrt \<Rightarrow> vendor_pattern list \<Rightarrow> str \<Rightarrow> str \<Rightarrow> nat list \<Rightarrow> str \<Rightarrow> world \<Rightarrow> exn + world" where
  "process_attachment db vendor_patterns pid att_filename data ocr w =
     (let fname = draft_filename db pid att_filename;
          save_path = path_join (path_join (data_dir w) (cp ''uploads'')) fname;
          w1 = w\<lparr>files := (files w)(save_path \<mapsto> ImageFile data)\<rparr>;
          cat = guess_category db vendor_patterns ocr
      in case guess_amount db ocr of Inl e \<Rightarrow> Inl e
         | Inr amt \<Rightarrow>
        (case guess_datetime db ocr of Inl e \<Rightarrow> Inl e
         | Inr when0 \<Rightarrow>
             Inr (w1\<lparr>pending := (pending w1)(pid \<mapsto>
                    \<lparr>p_id = pid, p_filename = fname, p_category = cat, p_amount = amt,
                     p_when = when0, p_ocr_text = ocr\<rparr>)\<rparr>)))"

section \<open>Character tables for the examples\<close>

text \<open>
  The tables on the characters that the examples below contain: Basic Latin, the Hangul
  syllables (letters without case) and symbols that are neither digits nor letters; the
  limit of \<open>int\<close> is the one of an interpreter that was not configured.
\<close>

definition ascii_lower :: "int \<Rightarrow> int" where
  "ascii_lower c = (if 0x41 \<le> c \<and> c \<le> 0x5A then c + 0x20 else c)"

definition basic_db :: pyrt where
  "basic_db =
     \<lparr>to_decimal = (\<lambda>c. if 0x30 \<le> c \<and> c \<le> 0x39 then Some (c - 0x30) else None),
      is_alnum = (\<lambda>c. (0x30 \<le> c \<and> c \<le> 0x39) \<or> (0x41 \<le> c \<and> c \<le> 0x5A) \<or>
                       (0x61 \<le> c \<and> c \<le> 0x7A) \<or> (0xAC00 \<le> c \<and> c \<le> 0xD7A3)),
      str_lower = map ascii_lower,
      int_max_str_digits = 4300\<rparr>"

section \<open>Notions used to state the properties\<close>

text \<open>
  The score of a category in words: how many of its keywords occur, lower-cased, as a
  substring of the normalized text, each keyword counted once.
\<close>

definition distinct_keywords_found :: "pyrt \<Rightarrow> str \<Rightarrow> str list \<Rightarrow> nat" where
  "distinct_keywords_found db t kws = card {kw \<in> set kws. sublist (str_lower db kw) t}"

text \<open>
  A string in which every whitespace character is a single U+0020 that no other
  whitespace follows: the shape of every result of \<open>re_sub_ws\<close>.
\<close>

fun spaced :: "str \<Rightarrow> bool" where
  "spaced [] = True"
| "spaced [c] = (is_space c \<longrightarrow> c = 0x20)"
| "spaced (c # d # r) = ((is_space c \<longrightarrow> c = 0x20 \<and> \<not> is_space d) \<and> spaced (d # r))"

text \<open>
  The character before the position reached after reading \<open>w\<close> from a position whose
  previous character was \<open>p\<close>.
\<close>

definition after :: "int option \<Rightarrow> str \<Rightarrow> int option" where
  "after p w = (if w = [] then p else Some (last w))"

text \<open>
  The strings that an expression can consume, leaving aside what the zero-width
  assertions demand of the context, and the groups an expression can set.
\<close>

primrec lang :: "pyrt \<Rightarrow> re \<Rightarrow> str set" where
  "lang db (One cs) = {[c] | c. list_ex (\<lambda>k. cls_match db k c) cs}"
| "lang db (Seq a b) = {u @ v | u v. u \<in> lang db a \<and> v \<in> lang db b}"
| "lang db (Alt a b) = lang db a \<union> lang db b"
| "lang db (Rep lo hi a) =
     {concat ws | ws. lo \<le> length ws \<and> (case hi of None \<Rightarrow> True | Some h \<Rightarrow> length ws \<le> h) \<and>
                       set ws \<subseteq> lang db a}"
| "lang db (Grp k a) = lang db a"
| "lang db (Look a) = {[]}"
| "lang db WordB = {[]}"

primrec grps :: "re \<Rightarrow> nat set" where
  "grps (One cs) = {}"
| "grps (Seq a b) = grps a \<union> grps b"
| "grps (Alt a b) = grps a \<union> grps b"
| "grps (Rep lo hi a) = grps a"
| "grps (Grp k a) = insert k (grps a)"
| "grps (Look a) = grps a"
| "grps WordB = {}"

text \<open>
  The numeric tokens in words: a thousands-grouped number (one to three digits, then one
  or more groups of a comma or a whitespace character and exactly three digits), or a
  plain run of four or more digits.
\<close>

definition thousands_grouped :: "pyrt \<Rightarrow> str \<Rightarrow> bool" where
  "thousands_grouped db tok =
     (\<exists>lead groups.
        tok = lead @ concat groups \<and> 1 \<le> length lead \<and> length lead \<le> 3 \<and>
        list_all (is_decimal db) lead \<and> groups \<noteq> [] \<and>
        list_all (\<lambda>grp. \<exists>sep ds. grp = sep # ds \<and> (sep = 0x2C \<or> is_space sep) \<and>
                      length ds = 3 \<and> list_all (is_decimal db) ds) groups)"

definition plain_run :: "pyrt \<Rightarrow> str \<Rightarrow> bool" where
  "plain_run db tok = (4 \<le> length tok \<and> list_all (is_decimal db) tok)"

definition amount_token :: "pyrt \<Rightarrow> str \<Rightarrow> bool" where
  "amount_token db tok = (thousands_grouped db tok \<or> plain_run db tok)"

text \<open>
  The numeric tokens of a text: what the first group holds in each match of the amount
  pattern, from left to right. A text is within the limit of the conversion when the
  digits of none of its tokens are more than \<open>int\<close> converts.
\<close>

definition amount_tokens :: "pyrt \<Rightarrow> str \<Rightarrow> str list" where
  "amount_tokens db txt = List.map_filter (\<lambda>g. g 1) (finditer amount_re db None txt)"

definition within_int_limit :: "pyrt \<Rightarrow> str \<Rightarrow> bool" where
  "within_int_limit db txt =
     list_all (\<lambda>tok. \<not> too_many_digits db (re_sub_nondigit db tok)) (amount_tokens db txt)"

text \<open>
  The date and time patterns in words. \<open>digit_run db n s\<close> is the longest run of at most
  \<open>n\<close> decimal digits at the start of \<open>s\<close>. A date tail is a separator, a month of one
  or two digits, a separator and a day of one or two digits; a date with an \<open>n\<close>-digit
  year is \<open>n\<close> digits and a date tail. A time is an hour of one or two digits, a colon,
  a minute of two digits and, optionally, a colon and a second of two digits.
\<close>

definition digit_run :: "pyrt \<Rightarrow> nat \<Rightarrow> str \<Rightarrow> str" where
  "digit_run db n s = takeWhile (is_decimal db) (take n s)"

definition is_date_sep :: "int \<Rightarrow> bool" where
  "is_date_sep c = (c = 0x2E \<or> c = 0x2D \<or> c = 0x2F)"

definition date_tail_at :: "pyrt \<Rightarrow> str \<Rightarrow> (str \<times> str) option" where
  "date_tail_at db s =
     (case s of [] \<Rightarrow> None
      | x # s2 \<Rightarrow>
          if \<not> is_date_sep x \<or> digit_run db 2 s2 = [] then None
          else (case drop (length (digit_run db 2 s2)) s2 of [] \<Rightarrow> None
                | y # s4 \<Rightarrow>
                    if \<not> is_date_sep y \<or> digit_run db 2 s4 = [] then None
                    else Some (digit_run db 2 s2, digit_run db 2 s4)))"

definition date_at :: "pyrt \<Rightarrow> nat \<Rightarrow> str \<Rightarrow> (str \<times> str \<times> str) option" where
  "date_at db n s =
     (if length (digit_run db n s) = n
      then map_option (\<lambda>(m, d). (take n s, m, d)) (date_tail_at db (drop n s))
      else None)"

definition time_at :: "pyrt \<Rightarrow> str \<Rightarrow> (str \<times> str \<times> str option) option" where
  "time_at db s =
     (if digit_run db 2 s = [] then None
      else (case drop (length (digit_run db 2 s)) s of [] \<Rightarrow> None
            | c # s2 \<Rightarrow>
                if c \<noteq> 0x3A \<or> length (digit_run db 2 s2) \<noteq> 2 then None
                else Some (digit_run db 2 s, take 2 s2,
                       (case drop 2 s2 of [] \<Rightarrow> None
                        | c' # s4 \<Rightarrow>
                            if c' = 0x3A \<and> length (digit_run db 2 s4) = 2 then Some (take 2 s4)
                            else None))))"

text \<open>The leftmost position of a string, its end included, at which \<open>f\<close> finds something.\<close>

fun first_at :: "(str \<Rightarrow> 'a option) \<Rightarrow> str \<Rightarrow> 'a option" where
  "first_at f [] = f []"
| "first_at f (c # cs) = (case f (c # cs) of None \<Rightarrow> first_at f cs | Some r \<Rightarrow> Some r)"

text \<open>
  The extractor in words: the leftmost date with a four-digit year or else the leftmost
  date with a two-digit year (counted from 2000); the leftmost time or else midnight;
  the timestamp they form, if they form one.
\<close>

definition date_found :: "pyrt \<Rightarrow> str \<Rightarrow> (int \<times> int \<times> int) option" where
  "date_found db txt =
     (case first_at (date_at db 4) txt of
        Some (y, m, d) \<Rightarrow> Some (int_value db y, int_value db m, int_value db d)
      | None \<Rightarrow>
          (case first_at (date_at db 2) txt of
             Some (y, m, d) \<Rightarrow> Some (2000 + int_value db y, int_value db m, int_value db d)
           | None \<Rightarrow> None))"

definition time_found :: "pyrt \<Rightarrow> str \<Rightarrow> int \<times> int \<times> int" where
  "time_found db txt =
     (case first_at (time_at db) txt of
        Some (h, mi, s) \<Rightarrow>
          (int_value db h, int_value db mi, (case s of None \<Rightarrow> 0 | Some s' \<Rightarrow> int_value db s'))
      | None \<Rightarrow> (0, 0, 0))"

definition guess_datetime_spec :: "pyrt \<Rightarrow> str \<Rightarrow> datetime option" where
  "guess_datetime_spec db txt =
     (case date_found db txt of None \<Rightarrow> None
      | Some (yy, mm, dd) \<Rightarrow>
          (case time_found db txt of
             (hh, mi, ss) \<Rightarrow>
               (case datetime_new yy mm dd hh mi ss of Inl e \<Rightarrow> None | Inr d \<Rightarrow> Some d)))"

text \<open>The first way to match, as \<open>re\<close> reports it: the groups it captured.\<close>

definition first_match :: "mstate list \<Rightarrow> groups option" where
  "first_match xs = (case xs of [] \<Rightarrow> None | m # _ \<Rightarrow> Some (snd (snd m)))"

text \<open>
  What the comparison of the matcher with the description in words asks of the character
  tables: the date separators and the colon are not decimal digits.
\<close>

definition punctuation_not_decimal :: "pyrt \<Rightarrow> bool" where
  "punctuation_not_decimal db =
     (\<not> is_decimal db 0x2E \<and> \<not> is_decimal db 0x2D \<and> \<not> is_decimal db 0x2F \<and>
      \<not> is_decimal db 0x3A)"

text \<open>The groups of a date match and of a time match.\<close>

definition date_groups :: "str \<times> str \<times> str \<Rightarrow> groups" where
  "date_groups t = (case t of (y, m, d) \<Rightarrow> [1 \<mapsto> y, 2 \<mapsto> m, 3 \<mapsto> d])"

definition time_groups :: "str \<times> str \<times> str option \<Rightarrow> groups" where
  "time_groups t =
     (case t of (h, mi, ss) \<Rightarrow>
        (case ss of None \<Rightarrow> [1 \<mapsto> h, 2 \<mapsto> mi] | Some x \<Rightarrow> [1 \<mapsto> h, 2 \<mapsto> mi, 3 \<mapsto> x]))"

text \<open>A year, a month and a day that the calendar has.\<close>

definition valid_date :: "int \<Rightarrow> int \<Rightarrow> int \<Rightarrow> bool" where
  "valid_date y m d = (1 \<le> y \<and> y \<le> 9999 \<and> 1 \<le> m \<and> m \<le> 12 \<and> 1 \<le> d \<and> d \<le> days_in_month y m)"


section \<open>A sample session\<close>

text \<open>Concrete drafts, forms and vendor patterns on which the properties are exercised.\<close>

definition sample_draft :: Pending where
  "sample_draft =
     \<lparr>p_id = cp ''d1'', p_filename = cp ''d1.jpg'', p_category = uncategorized,
      p_amount = Some 4500, p_when = None, p_ocr_text = cp ''total 4,500''\<rparr>"

definition sample_world :: world where
  "sample_world =
     \<lparr>pending = [cp ''d1'' \<mapsto> sample_draft], ledger = [], files = Map.empty,
      data_dir = cp ''./data''\<rparr>"

definition sample_form :: correction_form where
  "sample_form =
     \<lparr>t_category = cp '' Cafe '', t_amount = Some (amount_input (cp ''n/a'')), t_dt = Some (cp ''soon'')\<rparr>"

text \<open>A line in upper case with surplus whitespace, for the keyword scores.\<close>

definition shout_line :: str where
  "shout_line = cp ''  GS25   CGV cgv ''"

definition sample_vendors :: "vendor_pattern list" where
  "sample_vendors =
     [(sublist (cp ''homeplus''), cp ''mart'', cp ''Homeplus''),
      (sublist (cp ''starbucks''), cp ''coffee'', cp ''Starbucks'')]"

text \<open>
  The receipt line of the amount example: U+D569 U+ACC4 (total), the amount with the
  syllable U+C6D0 (won), U+D3EC U+C778 U+D2B8 (points) and a small number.
\<close>

definition receipt_line :: str where
  "receipt_line =
     [0xD569, 0xACC4] @ cp '' 12,345'' @ [0xC6D0, 0x20, 0xD3EC, 0xC778, 0xD2B8] @ cp '' 50''"

text \<open>
  The payment line of the date example (the date and the time, then U+ACB0 U+C81C U+C644
  U+B8CC, payment completed), and a line on which a date with a two-digit year stands
  before a date with a four-digit year.
\<close>

definition payment_line :: str where
  "payment_line = cp ''2025-11-13 14:05:30 '' @ [0xACB0, 0xC81C, 0xC644, 0xB8CC]"

definition two_dates_line :: str where
  "two_dates_line = cp ''due 25-12-31, paid 2024/2/29 at 9:05''"

section \<open>Properties of the conversion to integers\<close>

lemma short_not_too_many: "length s \<le> 640 \<Longrightarrow> \<not> too_many_digits db s"
  by (simp add: too_many_digits_def)

lemma py_int_digit_string:
  "s \<noteq> [] \<Longrightarrow> list_all (is_decimal db) s \<Longrightarrow> \<not> too_many_digits db s \<Longrightarrow>
   py_int db s = Inr (int_value db s)"
  by (simp add: py_int_def)

lemma py_int_too_many: "too_many_digits db s \<Longrightarrow> py_int db s = Inl ValueError"
  by (simp add: py_int_def)

lemma py_int_raises_ValueError: "py_int db s = Inl e \<Longrightarrow> e = ValueError"
  by (simp add: py_int_def split: if_splits)

lemma re_sub_nondigit_digits: "list_all (is_decimal db) (re_sub_nondigit db s)"
  by (simp add: re_sub_nondigit_def list_all_iff)

lemma re_sub_nondigit_length: "length (re_sub_nondigit db s) \<le> length s"
  by (simp add: re_sub_nondigit_def)

lemma py_int_of_digits:
  "re_sub_nondigit db s \<noteq> [] \<Longrightarrow> \<not> too_many_digits db (re_sub_nondigit db s) \<Longrightarrow>
   py_int db (re_sub_nondigit db s) = Inr (int_value db (re_sub_nondigit db s))"
  by (rule py_int_digit_string) (simp_all add: re_sub_nondigit_digits)

text \<open>The amount field of the correction form is too short for the limit to matter.\<close>

lemma amount_input_short: "length (amount_chars v) \<le> 12"
  using amount_chars[of v] by simp

lemma form_amount_converts:
  assumes "digits = re_sub_nondigit db (case t_amount form of None \<Rightarrow> [] | Some v \<Rightarrow> amount_chars v)"
    and "digits \<noteq> []"
  shows "py_int db digits = Inr (int_value db digits)"
proof -
  have "length (case t_amount form of None \<Rightarrow> [] | Some v \<Rightarrow> amount_chars v) \<le> 12"
    using amount_input_short by (cases "t_amount form") simp_all
  with re_sub_nondigit_length[of db "case t_amount form of None \<Rightarrow> [] | Some v \<Rightarrow> amount_chars v"]
  have "length digits \<le> 640"
    unfolding assms(1) by linarith
  from short_not_too_many[OF this] assms show ?thesis
    by (simp add: py_int_of_digits)
qed


section \<open>Properties of the correction form\<close>

lemma save_row_fields:
  "pending (save_row p w) = pending w"
  "ledger (save_row p w) = ledger w @
     [\<lparr>r_id = p_id p, r_filename = p_filename p, r_category = p_category p,
       r_amount = p_amount p, r_datetime = p_when p,
       r_ocr_text_path = path_join (data_dir w) (p_id p @ cp ''.txt'')\<rparr>]"
  "files (save_row p w) =
     (files w)(path_join (data_dir w) (p_id p @ cp ''.txt'') \<mapsto> TextFile (p_ocr_text p))"
  "data_dir (save_row p w) = data_dir w"
  by (simp_all add: save_row_def Let_def)

text \<open>
  C8. A correction submitted for a live draft is always saved: the reply is the
  confirmation, one row is appended and the draft is removed. The row carries the
  stripped category of the form (or the fallback category when that is empty). If the
  amount field holds no decimal digit, the row keeps the amount of the draft; if the
  timestamp field does not parse, the row keeps the timestamp of the draft. A field
  that is valid replaces the value of the draft.
\<close>

theorem correction_keeps_previous_value:
  assumes live: "pending w pid = Some p"
  shows "\<exists>w' row.
           on_submit db strptime pid form w = Inr (w', SavedCorrected) \<and>
           pending w' = (pending w)(pid := None) \<and>
           ledger w' = ledger w @ [row] \<and>
           r_id row = p_id p \<and> r_filename row = p_filename p \<and>
           r_category row =
             (if strip (t_category form) = [] then uncategorized else strip (t_category form)) \<and>
           ((\<forall>v. t_amount form = Some v \<longrightarrow> (\<forall>c \<in> set (amount_chars v). \<not> is_decimal db c)) \<longrightarrow>
              r_amount row = p_amount p) \<and>
           ((\<forall>v. t_dt form = Some v \<longrightarrow> strptime (strip v) = None) \<longrightarrow>
              r_datetime row = p_when p) \<and>
           (\<forall>v. t_amount form = Some v \<and> (\<exists>c \<in> set (amount_chars v). is_decimal db c) \<longrightarrow>
              r_amount row = Some (int_value db (re_sub_nondigit db (amount_chars v)))) \<and>
           (\<forall>v d. t_dt form = Some v \<and> strip v \<noteq> [] \<and> strptime (strip v) = Some d \<longrightarrow>
              r_datetime row = Some d)"
proof -
  define digits where
    "digits = re_sub_nondigit db (case t_amount form of None \<Rightarrow> [] | Some v \<Rightarrow> amount_chars v)"
  have pi: "digits \<noteq> [] \<Longrightarrow> py_int db digits = Inr (int_value db digits)"
    using form_amount_converts[OF digits_def] .
  have nodigits: "digits = []"
    if "\<forall>v. t_amount form = Some v \<longrightarrow> (\<forall>c \<in> set (amount_chars v). \<not> is_decimal db c)"
    using that
    by (cases "t_amount form") (auto simp: digits_def re_sub_nondigit_def filter_empty_conv)
  have somedigits: "digits \<noteq> [] \<and> digits = re_sub_nondigit db (amount_chars v)"
    if "t_amount form = Some v" "\<exists>c \<in> set (amount_chars v). is_decimal db c" for v
    using that by (auto simp: digits_def re_sub_nondigit_def filter_empty_conv)
  have strip_Nil: "strip [] = []" by (simp add: strip_def)
  show ?thesis
  proof (cases "digits = []")
    case True
    then show ?thesis
      using live somedigits
      by (auto simp: on_submit_def Let_def save_row_fields digits_def[symmetric] strip_Nil
               split: option.splits)
  next
    case False
    then show ?thesis
      using live somedigits nodigits pi
      by (auto simp: on_submit_def Let_def save_row_fields digits_def[symmetric] strip_Nil
               split: option.splits)
  qed
qed

theorem correction_keeps_previous_value_witness:
  "pending sample_world (cp ''d1'') = Some sample_draft \<and>
   (\<exists>w' row.
      on_submit basic_db (\<lambda>dt. None) (cp ''d1'') sample_form sample_world
        = Inr (w', SavedCorrected) \<and>
      ledger w' = [row] \<and> pending w' (cp ''d1'') = None \<and>
      r_category row = cp ''Cafe'' \<and> r_amount row = Some 4500 \<and> r_datetime row = None)"
proof -
  have live: "pending sample_world (cp ''d1'') = Some sample_draft"
    by (simp add: sample_world_def)
  have "amount_chars (amount_input (cp ''n/a'')) = cp ''n/a''"
    by (rule amount_input_inverse) (simp add: cp_def)
  then have nodigit:
    "\<forall>v. t_amount sample_form = Some v \<longrightarrow> (\<forall>c \<in> set (amount_chars v). \<not> is_decimal basic_db c)"
    by (simp add: sample_form_def cp_def is_decimal_def basic_db_def)
  have cat: "strip (t_category sample_form) = cp ''Cafe''"
    by code_simp
  have ne: "cp ''Cafe'' \<noteq> []"
    by (simp add: cp_def)
  from correction_keeps_previous_value[OF live, of basic_db "\<lambda>dt. None" sample_form]
  obtain w' row where
    "on_submit basic_db (\<lambda>dt. None) (cp ''d1'') sample_form sample_world
       = Inr (w', SavedCorrected)"
    "pending w' = (pending sample_world)(cp ''d1'' := None)"
    "ledger w' = ledger sample_world @ [row]"
    "r_category row = cp ''Cafe''"
    "r_amount row = p_amount sample_draft"
    "r_datetime row = p_when sample_draft"
    using nodigit cat ne by auto
  then show ?thesis
    using live
    by (intro conjI exI[of _ w'] exI[of _ row]) (simp_all add: sample_world_def sample_draft_def)
qed


section \<open>Properties of the category classifier\<close>


lemma vendor_lookup_first:
  "\<forall>(q, c, v) \<in> set before. \<not> q t \<Longrightarrow> pat t \<Longrightarrow>
   vendor_lookup (before @ (pat, cat, vendor) # rest) t = Some cat"
  by (induction before) auto

lemma vendor_lookup_none:
  "vendor_lookup vps t = None \<longleftrightarrow> (\<forall>(q, c, v) \<in> set vps. \<not> q t)"
  by (induction vps) (auto split: if_splits)

text \<open>
  C2. A vendor pattern that matches the normalized text decides the category: the result
  is the category of the first pattern, in load order, that matches, whatever the keyword
  table would say.
\<close>

theorem vendor_pattern_precedence:
  assumes "vendor_patterns = before @ (pat, cat, vendor) # rest"
    and "\<forall>(q, c, v) \<in> set before. \<not> q (normalize_str db txt)"
    and "pat (normalize_str db txt)"
  shows "guess_category db vendor_patterns txt = cat"
  using assms by (simp add: guess_category_def vendor_lookup_first)

theorem vendor_pattern_precedence_witness:
  "guess_category basic_db [] (cp ''GS25 Starbucks'') = [0xD3B8, 0xC758, 0xC810] \<and>
   guess_category basic_db sample_vendors (cp ''GS25 Starbucks'') = cp ''coffee''"
proof
  show "guess_category basic_db [] (cp ''GS25 Starbucks'') = [0xD3B8, 0xC758, 0xC810]"
    by code_simp
  have n: "normalize_str basic_db (cp ''GS25 Starbucks'') = cp ''gs25 starbucks''"
    by code_simp
  have v: "sample_vendors =
      [(sublist (cp ''homeplus''), cp ''mart'', cp ''Homeplus'')] @
      (sublist (cp ''starbucks''), cp ''coffee'', cp ''Starbucks'') # []"
    by (simp add: sample_vendors_def)
  have miss: "\<not> sublist (cp ''homeplus'') (cp ''gs25 starbucks'')"
    by code_simp
  have hit: "sublist (cp ''starbucks'') (cp ''gs25 starbucks'')"
    by code_simp
  show "guess_category basic_db sample_vendors (cp ''GS25 Starbucks'') = cp ''coffee''"
    by (rule vendor_pattern_precedence[OF v]) (simp_all add: n miss hit)
qed

lemma max_by_score_snoc:
  "max_by_score x (xs @ [y]) =
     (if snd (max_by_score x xs) < snd y then y else max_by_score x xs)"
  by (simp add: max_by_score_def)

lemma max_by_score_first:
  "\<exists>pre post. x # xs = pre @ max_by_score x xs # post \<and>
     (\<forall>y \<in> set pre. snd y < snd (max_by_score x xs)) \<and>
     (\<forall>y \<in> set post. snd y \<le> snd (max_by_score x xs))"
proof (induction xs rule: rev_induct)
  case Nil
  show ?case
    by (rule exI[of _ "[]"], rule exI[of _ "[]"]) (simp add: max_by_score_def)
next
  case (snoc y xs)
  then obtain pre post where d: "x # xs = pre @ max_by_score x xs # post"
    and lt: "\<forall>z \<in> set pre. snd z < snd (max_by_score x xs)"
    and le: "\<forall>z \<in> set post. snd z \<le> snd (max_by_score x xs)"
    by blast
  show ?case
  proof (cases "snd (max_by_score x xs) < snd y")
    case True
    have "\<forall>z \<in> set (x # xs). snd z < snd y"
      unfolding d using lt le True by auto
    then show ?thesis
      using True
      by (intro exI[of _ "x # xs"] exI[of _ "[]"]) (simp add: max_by_score_snoc)
  next
    case False
    have "x # xs @ [y] = pre @ max_by_score x xs # (post @ [y])"
      using d by simp
    then show ?thesis
      using False lt le
      by (intro exI[of _ pre] exI[of _ "post @ [y]"]) (auto simp: max_by_score_snoc)
  qed
qed


lemma filter_decomp:
  "filter P ys = pre @ m # post \<Longrightarrow>
   \<exists>a b. ys = a @ m # b \<and> filter P a = pre \<and> filter P b = post"
proof (induction ys arbitrary: pre)
  case Nil
  then show ?case by simp
next
  case (Cons y ys)
  show ?case
  proof (cases "P y")
    case False
    with Cons.prems have "filter P ys = pre @ m # post" by simp
    from Cons.IH[OF this] obtain a b where "ys = a @ m # b" "filter P a = pre" "filter P b = post"
      by blast
    with False show ?thesis
      by (intro exI[of _ "y # a"] exI[of _ b]) simp
  next
    case True
    show ?thesis
    proof (cases pre)
      case Nil
      with True Cons.prems show ?thesis
        by (intro exI[of _ "[]"] exI[of _ ys]) simp
    next
      case (Cons p pre')
      with True Cons.prems have "y = p" "filter P ys = pre' @ m # post" by simp_all
      from Cons.IH[OF this(2)] obtain a b where "ys = a @ m # b" "filter P a = pre'" "filter P b = post"
        by blast
      with True Cons \<open>y = p\<close> show ?thesis
        by (intro exI[of _ "y # a"] exI[of _ b]) simp
    qed
  qed
qed

lemma score_table_first_max:
  assumes "score_table db t rules = x # xs"
  shows "\<exists>before cat kws rest.
           rules = before @ (cat, kws) # rest \<and> fst (max_by_score x xs) = cat \<and>
           0 < kw_score db t kws \<and>
           (\<forall>(c, k) \<in> set before. kw_score db t k < kw_score db t kws) \<and>
           (\<forall>(c, k) \<in> set rest. kw_score db t k \<le> kw_score db t kws)"
proof -
  define f where "f = (\<lambda>(cat :: str, kws). (cat, kw_score db t kws))"
  define P where "P = (\<lambda>(cat :: str, s :: nat). 0 < s)"
  define m where "m = max_by_score x xs"
  have tbl: "filter P (map f rules) = x # xs"
    using assms by (simp add: score_table_def f_def P_def)
  from max_by_score_first[of x xs] obtain pre post where
    d: "x # xs = pre @ m # post" and
    lt: "\<forall>y \<in> set pre. snd y < snd m" and le: "\<forall>y \<in> set post. snd y \<le> snd m"
    unfolding m_def by blast
  from filter_decomp[of P "map f rules" pre m post] tbl d obtain a b where
    ab: "map f rules = a @ m # b" "filter P a = pre" "filter P b = post"
    by auto
  have "m \<in> set (filter P (map f rules))"
    using tbl d by simp
  then have Pm: "P m" by simp
  from ab(1) obtain before r rest where
    r: "rules = before @ r # rest" "map f before = a" "f r = m" "map f rest = b"
    by (auto simp: map_eq_append_conv map_eq_Cons_conv)
  obtain cat kws where ck: "r = (cat, kws)" by (cases r)
  have m_eq: "m = (cat, kw_score db t kws)"
    using r(3) ck by (simp add: f_def)
  have pos: "0 < kw_score db t kws"
    using Pm m_eq by (simp add: P_def)
  have small: "snd y < snd m" if "y \<in> set a" for y
  proof (cases "P y")
    case True
    with that ab(2) have "y \<in> set pre" by auto
    with lt show ?thesis by blast
  next
    case False
    then have "snd y = 0" by (cases y) (simp add: P_def)
    with pos m_eq show ?thesis by simp
  qed
  have smallish: "snd y \<le> snd m" if "y \<in> set b" for y
  proof (cases "P y")
    case True
    with that ab(3) have "y \<in> set post" by auto
    with le show ?thesis by blast
  next
    case False
    then have "snd y = 0" by (cases y) (simp add: P_def)
    then show ?thesis by simp
  qed
  have b1: "\<forall>(c, k) \<in> set before. kw_score db t k < kw_score db t kws"
  proof (clarify)
    fix c k assume "(c, k) \<in> set before"
    then have "f (c, k) \<in> set a" using r(2) by force
    from small[OF this] show "kw_score db t k < kw_score db t kws"
      by (simp add: f_def m_eq)
  qed
  have b2: "\<forall>(c, k) \<in> set rest. kw_score db t k \<le> kw_score db t kws"
  proof (clarify)
    fix c k assume "(c, k) \<in> set rest"
    then have "f (c, k) \<in> set b" using r(4) by force
    from smallish[OF this] show "kw_score db t k \<le> kw_score db t kws"
      by (simp add: f_def m_eq)
  qed
  show ?thesis
    using r(1) ck m_eq pos b1 b2 unfolding m_def[symmetric]
    by (intro exI[of _ before] exI[of _ cat] exI[of _ kws] exI[of _ rest]) simp
qed

lemma score_table_empty:
  "score_table db t rules = [] \<longleftrightarrow> (\<forall>(c, k) \<in> set rules. kw_score db t k = 0)"
  by (auto simp: score_table_def filter_empty_conv)

lemma category_keywords_distinct:
  "\<forall>(c, k) \<in> set CATEGORY_RULES. distinct k"
  by code_simp

lemma kw_score_card:
  "distinct kws \<Longrightarrow>
   kw_score db t kws = card {kw \<in> set kws. sublist (str_lower db kw) t}"
  by (simp add: kw_score_def distinct_length_filter Collect_conj_eq Int_commute)

lemma found_eq_score:
  "(c, k) \<in> set CATEGORY_RULES \<Longrightarrow>
   distinct_keywords_found db t k = kw_score db t k"
  using category_keywords_distinct
  by (auto simp: distinct_keywords_found_def kw_score_card)

text \<open>
  C3. Let \<open>t\<close> be the text with every run of whitespace collapsed to one space, trimmed
  and lower-cased. When no vendor pattern matches \<open>t\<close>, the category is decided by the
  keyword scores, the score of a category being the number of its keywords that occur,
  lower-cased, in \<open>t\<close> (each keyword once). If every score is 0 the result is the fallback
  category. Otherwise the result is a category of the table with a positive score such
  that every category before it in the table scores strictly less and every category
  after it scores at most as much: the first one, in table order, that reaches the
  maximum.
\<close>

theorem keyword_scoring:
  assumes "t = str_lower db (strip (re_sub_ws txt))"
    and "\<forall>(q, c, v) \<in> set vendor_patterns. \<not> q t"
  shows "if \<forall>(cat, kws) \<in> set CATEGORY_RULES. distinct_keywords_found db t kws = 0
         then guess_category db vendor_patterns txt = uncategorized
         else \<exists>before cat kws rest.
                CATEGORY_RULES = before @ (cat, kws) # rest \<and>
                guess_category db vendor_patterns txt = cat \<and>
                0 < distinct_keywords_found db t kws \<and>
                (\<forall>(c, k) \<in> set before.
                   distinct_keywords_found db t k < distinct_keywords_found db t kws) \<and>
                (\<forall>(c, k) \<in> set rest.
                   distinct_keywords_found db t k \<le> distinct_keywords_found db t kws)"
proof -
  have tn: "normalize_str db txt = t"
    by (simp add: assms(1) normalize_str_def)
  have found: "distinct_keywords_found db t k = kw_score db t k"
    if "(c, k) \<in> set CATEGORY_RULES" for c k
    using that by (rule found_eq_score)
  have novendor: "vendor_lookup vendor_patterns t = None"
    using assms(2) by (simp add: vendor_lookup_none)
  show ?thesis
  proof (cases "score_table db t CATEGORY_RULES")
    case Nil
    then have zero: "\<forall>(c, k) \<in> set CATEGORY_RULES. distinct_keywords_found db t k = 0"
      using found by (auto simp: score_table_empty)
    have "guess_category db vendor_patterns txt = uncategorized"
      using Nil novendor by (simp add: guess_category_def tn)
    then show ?thesis
      unfolding if_P[OF zero] .
  next
    case (Cons x xs)
    from score_table_first_max[OF Cons] obtain before cat kws rest where
      d: "CATEGORY_RULES = before @ (cat, kws) # rest" and
      m: "fst (max_by_score x xs) = cat" and
      pos: "0 < kw_score db t kws" and
      lt: "\<forall>(c, k) \<in> set before. kw_score db t k < kw_score db t kws" and
      le: "\<forall>(c, k) \<in> set rest. kw_score db t k \<le> kw_score db t kws"
      by blast
    have mem: "(cat, kws) \<in> set CATEGORY_RULES"
      "\<And>c k. (c, k) \<in> set before \<Longrightarrow> (c, k) \<in> set CATEGORY_RULES"
      "\<And>c k. (c, k) \<in> set rest \<Longrightarrow> (c, k) \<in> set CATEGORY_RULES"
      unfolding d by simp_all
    have nonzero: "\<not> (\<forall>(c, k) \<in> set CATEGORY_RULES. distinct_keywords_found db t k = 0)"
      using pos found[OF mem(1)] mem(1) by force
    have res: "guess_category db vendor_patterns txt = cat"
      using Cons novendor m by (simp add: guess_category_def tn)
    have pos': "0 < distinct_keywords_found db t kws"
      using pos found[OF mem(1)] by simp
    have lt': "\<forall>(c, k) \<in> set before.
        distinct_keywords_found db t k < distinct_keywords_found db t kws"
      using lt found[OF mem(1)] found[OF mem(2)] by fastforce
    have le': "\<forall>(c, k) \<in> set rest.
        distinct_keywords_found db t k \<le> distinct_keywords_found db t kws"
      using le found[OF mem(1)] found[OF mem(3)] by fastforce
    have ex: "\<exists>before cat kws rest.
            CATEGORY_RULES = before @ (cat, kws) # rest \<and>
            guess_category db vendor_patterns txt = cat \<and>
            0 < distinct_keywords_found db t kws \<and>
            (\<forall>(c, k) \<in> set before.
               distinct_keywords_found db t k < distinct_keywords_found db t kws) \<and>
            (\<forall>(c, k) \<in> set rest.
               distinct_keywords_found db t k \<le> distinct_keywords_found db t kws)"
      using d res pos' lt' le'
      by (intro exI[of _ before] exI[of _ cat] exI[of _ kws] exI[of _ rest]) simp
    show ?thesis
      unfolding if_not_P[OF nonzero] by (rule ex)
  qed
qed

text \<open>
  On \<open>shout_line\<close> the scores are those of the lower-cased text: the convenience store
  (U+D3B8 U+C758 U+C810) and the cinema (U+BB38 U+D654 \<open>/\<close> U+C5EC U+AC00) score 1 each, the
  keyword \<open>cgv\<close> counting once although it occurs twice, and the first of the two in the
  table is returned. The text as it was written holds only \<open>cgv\<close>, which alone would make
  it the cinema. A text without keywords gets the fallback category.
\<close>

theorem keyword_scoring_witness:
  "str_lower basic_db (strip (re_sub_ws shout_line)) = cp ''gs25 cgv cgv'' \<and>
   score_table basic_db (cp ''gs25 cgv cgv'') CATEGORY_RULES =
     [([0xD3B8, 0xC758, 0xC810], 1), ([0xBB38, 0xD654, 0x2F, 0xC5EC, 0xAC00], 1)] \<and>
   score_table basic_db shout_line CATEGORY_RULES = [([0xBB38, 0xD654, 0x2F, 0xC5EC, 0xAC00], 1)] \<and>
   guess_category basic_db sample_vendors shout_line = [0xD3B8, 0xC758, 0xC810] \<and>
   guess_category basic_db sample_vendors (cp ''no keyword here'') = uncategorized \<and>
   (\<exists>before kws rest.
      CATEGORY_RULES = before @ (guess_category basic_db sample_vendors shout_line, kws) # rest \<and>
      distinct_keywords_found basic_db (cp ''gs25 cgv cgv'') kws = 1 \<and>
      list_all (\<lambda>(c, k). distinct_keywords_found basic_db (cp ''gs25 cgv cgv'') k = 0) before)"
proof -
  have n1: "cp ''gs25 cgv cgv'' = str_lower basic_db (strip (re_sub_ws shout_line))"
    by code_simp
  have n2: "cp ''no keyword here'' = str_lower basic_db (strip (re_sub_ws (cp ''no keyword here'')))"
    by code_simp
  have v1: "\<forall>(q, c, v) \<in> set sample_vendors. \<not> q (cp ''gs25 cgv cgv'')"
    by code_simp
  have v2: "\<forall>(q, c, v) \<in> set sample_vendors. \<not> q (cp ''no keyword here'')"
    by code_simp
  have t1: "score_table basic_db (cp ''gs25 cgv cgv'') CATEGORY_RULES =
      [([0xD3B8, 0xC758, 0xC810], 1), ([0xBB38, 0xD654, 0x2F, 0xC5EC, 0xAC00], 1)]"
    by code_simp
  have t0: "score_table basic_db shout_line CATEGORY_RULES =
      [([0xBB38, 0xD654, 0x2F, 0xC5EC, 0xAC00], 1)]"
    by code_simp
  have z2: "\<forall>(cat, kws) \<in> set CATEGORY_RULES. kw_score basic_db (cp ''no keyword here'') kws = 0"
    by code_simp
  have z2': "\<forall>(cat, kws) \<in> set CATEGORY_RULES.
      distinct_keywords_found basic_db (cp ''no keyword here'') kws = 0"
    using z2 by (auto simp: found_eq_score)
  have r2: "guess_category basic_db sample_vendors (cp ''no keyword here'') = uncategorized"
    using keyword_scoring[OF n2 v2] z2' by simp
  have h1: "hd CATEGORY_RULES \<in> set CATEGORY_RULES"
    by (simp add: CATEGORY_RULES_def)
  have s1: "kw_score basic_db (cp ''gs25 cgv cgv'') (snd (hd CATEGORY_RULES)) = 1"
    by code_simp
  obtain c0 k0 where ck: "hd CATEGORY_RULES = (c0, k0)" by (cases "hd CATEGORY_RULES")
  with h1 have mem: "(c0, k0) \<in> set CATEGORY_RULES" by simp
  from s1 ck have f1: "distinct_keywords_found basic_db (cp ''gs25 cgv cgv'') k0 = 1"
    by (simp add: found_eq_score[OF mem])
  have nz1: "\<not> (\<forall>(cat, kws) \<in> set CATEGORY_RULES.
      distinct_keywords_found basic_db (cp ''gs25 cgv cgv'') kws = 0)"
    using mem f1 by force
  from keyword_scoring[OF n1 v1] nz1 obtain before cat kws rest where
    d: "CATEGORY_RULES = before @ (cat, kws) # rest" and
    r: "guess_category basic_db sample_vendors shout_line = cat" and
    lt: "\<forall>(c, k) \<in> set before.
           distinct_keywords_found basic_db (cp ''gs25 cgv cgv'') k
             < distinct_keywords_found basic_db (cp ''gs25 cgv cgv'') kws" and
    le: "\<forall>(c, k) \<in> set rest.
           distinct_keywords_found basic_db (cp ''gs25 cgv cgv'') k
             \<le> distinct_keywords_found basic_db (cp ''gs25 cgv cgv'') kws"
    by auto
  have r1: "guess_category basic_db sample_vendors shout_line = [0xD3B8, 0xC758, 0xC810]"
    by code_simp
  have first: "before = []"
  proof (rule ccontr)
    assume ne: "before \<noteq> []"
    have "hd CATEGORY_RULES = hd before"
      by (subst d) (simp add: ne)
    with ck ne have "(c0, k0) \<in> set before"
      by (metis hd_in_set)
    with lt f1 have big: "1 < distinct_keywords_found basic_db (cp ''gs25 cgv cgv'') kws"
      by force
    have "(cat, kws) \<in> set CATEGORY_RULES"
      unfolding d by simp
    then have "1 < kw_score basic_db (cp ''gs25 cgv cgv'') kws" "(cat, kws) \<in> set CATEGORY_RULES"
      using big by (simp_all add: found_eq_score)
    then have "(cat, kw_score basic_db (cp ''gs25 cgv cgv'') kws)
                 \<in> set (score_table basic_db (cp ''gs25 cgv cgv'') CATEGORY_RULES)"
      by (force simp: score_table_def)
    with \<open>1 < kw_score basic_db (cp ''gs25 cgv cgv'') kws\<close> show False
      unfolding t1 by auto
  qed
  have "hd CATEGORY_RULES = (cat, kws)"
    by (subst d) (simp add: first)
  with ck have "kws = k0" by simp
  with f1 first d r have "\<exists>before kws rest.
      CATEGORY_RULES = before @ (guess_category basic_db sample_vendors shout_line, kws) # rest \<and>
      distinct_keywords_found basic_db (cp ''gs25 cgv cgv'') kws = 1 \<and>
      list_all (\<lambda>(c, k). distinct_keywords_found basic_db (cp ''gs25 cgv cgv'') k = 0) before"
    by (intro exI[of _ "[]"] exI[of _ k0] exI[of _ rest]) simp
  with n1 t1 t0 r1 r2 show ?thesis by simp
qed

section \<open>Properties of the normalizer\<close>


lemma is_space_32 [simp]: "is_space 0x20"
  by (simp add: is_space_def)

lemma spaced_Cons:
  "spaced (c # x) \<longleftrightarrow>
     (is_space c \<longrightarrow> c = 0x20 \<and> (x = [] \<or> \<not> is_space (hd x))) \<and> spaced x"
  by (cases x) auto

lemma re_sub_ws_hd:
  "s = [] \<or> \<not> is_space (hd s) \<Longrightarrow> re_sub_ws s = [] \<or> \<not> is_space (hd (re_sub_ws s))"
  by (cases s) auto

lemma dropWhile_hd: "dropWhile P xs = [] \<or> \<not> P (hd (dropWhile P xs))"
  using hd_dropWhile[of P xs] by blast

lemma spaced_re_sub_ws: "spaced (re_sub_ws s)"
proof (induction s rule: re_sub_ws.induct)
  case 1
  show ?case by simp
next
  case (2 c cs)
  show ?case
  proof (cases "is_space c")
    case True
    have "re_sub_ws (dropWhile is_space cs) = [] \<or>
          \<not> is_space (hd (re_sub_ws (dropWhile is_space cs)))"
      by (rule re_sub_ws_hd) (rule dropWhile_hd)
    with True "2.IH"(1) show ?thesis
      by (simp add: spaced_Cons)
  next
    case False
    with "2.IH"(2) show ?thesis
      by (simp add: spaced_Cons)
  qed
qed

lemma spaced_fixed: "spaced s \<Longrightarrow> re_sub_ws s = s"
proof (induction s rule: re_sub_ws.induct)
  case 1
  show ?case by simp
next
  case (2 c cs)
  show ?case
  proof (cases "is_space c")
    case True
    with "2.prems" have c: "c = 0x20" and cs: "cs = [] \<or> \<not> is_space (hd cs)" and sp: "spaced cs"
      by (simp_all add: spaced_Cons)
    from cs have "dropWhile is_space cs = cs"
      by (cases cs) auto
    with True "2.IH"(1) sp c show ?thesis by simp
  next
    case False
    with "2.prems" "2.IH"(2) show ?thesis
      by (simp add: spaced_Cons)
  qed
qed

lemma spaced_append: "spaced (a @ b) \<Longrightarrow> spaced a \<and> spaced b"
proof (induction a)
  case Nil
  then show ?case by simp
next
  case (Cons c a)
  then have "spaced (a @ b)" and c: "is_space c \<longrightarrow> c = 0x20 \<and> (a @ b = [] \<or> \<not> is_space (hd (a @ b)))"
    by (simp_all add: spaced_Cons)
  with Cons.IH have "spaced a" "spaced b" by simp_all
  moreover have "is_space c \<longrightarrow> c = 0x20 \<and> (a = [] \<or> \<not> is_space (hd a))"
    using c by (cases a) auto
  ultimately show ?case by (simp add: spaced_Cons)
qed

lemma strip_decomp: "\<exists>a b. s = a @ strip s @ b"
proof -
  define x where "x = dropWhile is_space s"
  have "strip s @ rev (takeWhile is_space (rev x)) =
        rev (takeWhile is_space (rev x) @ dropWhile is_space (rev x))"
    by (simp only: rev_append strip_def x_def)
  also have "\<dots> = rev (rev x)"
    by (simp only: takeWhile_dropWhile_id)
  finally have "x = strip s @ rev (takeWhile is_space (rev x))"
    by simp
  moreover have "s = takeWhile is_space s @ x"
    by (simp add: x_def)
  ultimately show ?thesis by metis
qed

lemma spaced_strip: "spaced s \<Longrightarrow> spaced (strip s)"
proof -
  assume sp: "spaced s"
  obtain a b where "s = a @ strip s @ b" using strip_decomp by blast
  with sp have "spaced (a @ (strip s @ b))" by simp
  then have "spaced (strip s @ b)" by (rule spaced_append[THEN conjunct2])
  then show ?thesis by (rule spaced_append[THEN conjunct1])
qed

lemma strip_ends:
  "strip s = [] \<or> (\<not> is_space (hd (strip s)) \<and> \<not> is_space (last (strip s)))"
proof -
  define x where "x = dropWhile is_space s"
  define z where "z = dropWhile is_space (rev x)"
  have st: "strip s = rev z" by (simp add: strip_def x_def z_def)
  show ?thesis
  proof (cases "z = []")
    case True
    with st show ?thesis by simp
  next
    case False
    then have hz: "\<not> is_space (hd z)"
      using dropWhile_hd[of is_space "rev x"] unfolding z_def by blast
    from False have xne: "x \<noteq> []" by (auto simp: z_def)
    have "rev x = takeWhile is_space (rev x) @ z" by (simp add: z_def)
    with False have "last (rev x) = last z" by (metis last_appendR)
    with xne have "last z = hd x" by (simp add: last_rev)
    moreover have "\<not> is_space (hd x)"
      using dropWhile_hd[of is_space s] xne unfolding x_def by blast
    ultimately have "\<not> is_space (last z)" by simp
    with hz False st show ?thesis by (simp add: hd_rev last_rev)
  qed
qed

lemma strip_fixed:
  "s = [] \<or> (\<not> is_space (hd s) \<and> \<not> is_space (last s)) \<Longrightarrow> strip s = s"
proof (cases "s = []")
  case True
  then show ?thesis by (simp add: strip_def)
next
  case False
  assume "s = [] \<or> (\<not> is_space (hd s) \<and> \<not> is_space (last s))"
  with False have h: "\<not> is_space (hd s)" and l: "\<not> is_space (last s)" by simp_all
  from False h have "dropWhile is_space s = s" by (cases s) auto
  moreover from False l have "dropWhile is_space (rev s) = rev s"
    by (cases "rev s") (auto simp: last_rev hd_rev)
  ultimately show ?thesis by (simp add: strip_def)
qed

lemma strip_strip: "strip (strip s) = strip s"
  by (rule strip_fixed) (rule strip_ends)

lemma collapse_idem:
  "strip (re_sub_ws (strip (re_sub_ws s))) = strip (re_sub_ws s)"
proof -
  have "spaced (strip (re_sub_ws s))"
    by (rule spaced_strip) (rule spaced_re_sub_ws)
  then have "re_sub_ws (strip (re_sub_ws s)) = strip (re_sub_ws s)"
    by (rule spaced_fixed)
  then show ?thesis by (simp add: strip_strip)
qed

text \<open>
  C6. Normalizing twice is the same as normalizing once, for every lower-casing that is
  idempotent and leaves whitespace alone (it commutes with collapsing and trimming
  whitespace), as \<open>str.lower\<close> does.
\<close>

theorem normalize_idempotent:
  assumes idem: "\<And>s. str_lower db (str_lower db s) = str_lower db s"
    and spaces: "\<And>s. strip (re_sub_ws (str_lower db s)) = str_lower db (strip (re_sub_ws s))"
  shows "normalize_str db (normalize_str db s) = normalize_str db s"
  by (simp add: normalize_str_def spaces idem collapse_idem)

lemma is_space_ascii_lower [simp]: "is_space (ascii_lower c) = is_space c"
  by (auto simp: is_space_def ascii_lower_def)

lemma re_sub_ws_ascii_lower:
  "re_sub_ws (map ascii_lower s) = map ascii_lower (re_sub_ws s)"
  by (induction s rule: re_sub_ws.induct)
     (simp_all add: dropWhile_map comp_def ascii_lower_def[of "0x20"])

lemma strip_ascii_lower: "strip (map ascii_lower s) = map ascii_lower (strip s)"
  by (simp add: strip_def dropWhile_map comp_def rev_map)

lemma ascii_lower_idem: "ascii_lower (ascii_lower c) = ascii_lower c"
  by (simp add: ascii_lower_def)

theorem normalize_idempotent_witness:
  "normalize_str basic_db (normalize_str basic_db (cp ''  GS25   Store ''))
     = normalize_str basic_db (cp ''  GS25   Store '')
   \<and> normalize_str basic_db (cp ''  GS25   Store '') = cp ''gs25 store''"
proof
  show "normalize_str basic_db (normalize_str basic_db (cp ''  GS25   Store ''))
          = normalize_str basic_db (cp ''  GS25   Store '')"
    by (rule normalize_idempotent)
       (simp_all add: basic_db_def ascii_lower_idem re_sub_ws_ascii_lower strip_ascii_lower)
  show "normalize_str basic_db (cp ''  GS25   Store '') = cp ''gs25 store''"
    by code_simp
qed

section \<open>What a match of an expression consumes and captures\<close>


lemma after_append: "after (after p u) v = after p (u @ v)"
  by (simp add: after_def)

lemma after_Nil: "after p [] = p"
  by (simp add: after_def)

lemma rep_sound:
  assumes step: "\<And>p s g p' s' g'. (p', s', g') \<in> set (f (p, s, g)) \<Longrightarrow>
                   \<exists>w. s = w @ s' \<and> w \<in> L \<and> p' = after p w"
  shows "(p', s', g') \<in> set (rep f lo hi (p, s, g)) \<Longrightarrow>
         \<exists>ws. s = concat ws @ s' \<and> lo \<le> length ws \<and> length ws \<le> hi \<and> set ws \<subseteq> L \<and>
              p' = after p (concat ws)"
proof (induction hi arbitrary: lo p s g)
  case 0
  then have "lo = 0" "p' = p" "s' = s"
    by (auto split: if_splits)
  then show ?case
    by (intro exI[of _ "[]"]) (simp add: after_Nil)
next
  case (Suc hi)
  from Suc.prems consider
    (more) p1 s1 g1 where "(p1, s1, g1) \<in> set (f (p, s, g))"
      "(p', s', g') \<in> set (rep f (lo - 1) hi (p1, s1, g1))"
    | (stop) "lo = 0" "p' = p" "s' = s"
    by (auto split: if_splits)
  then show ?case
  proof cases
    case more
    from step[OF more(1)] obtain w where w: "s = w @ s1" "w \<in> L" "p1 = after p w"
      by blast
    from Suc.IH[OF more(2)] obtain ws where ws: "s1 = concat ws @ s'" "lo - 1 \<le> length ws"
      "length ws \<le> hi" "set ws \<subseteq> L" "p' = after p1 (concat ws)"
      by blast
    show ?thesis
      using w ws by (intro exI[of _ "w # ws"]) (auto simp: after_append)
  next
    case stop
    then show ?thesis
      by (intro exI[of _ "[]"]) (simp add: after_Nil)
  qed
qed

lemma ms_sound:
  "(p', s', g') \<in> set (ms r db (p, s, g)) \<Longrightarrow>
   \<exists>w. s = w @ s' \<and> w \<in> lang db r \<and> p' = after p w"
proof (induction r arbitrary: p s g p' s' g')
  case (One cs)
  then show ?case
    by (cases s) (auto simp: after_def split: if_splits)
next
  case (Seq a b)
  from Seq.prems obtain p1 s1 g1 where
    m1: "(p1, s1, g1) \<in> set (ms a db (p, s, g))" and
    m2: "(p', s', g') \<in> set (ms b db (p1, s1, g1))"
    by auto
  from Seq.IH(1)[OF m1] obtain u where u: "s = u @ s1" "u \<in> lang db a" "p1 = after p u"
    by blast
  from Seq.IH(2)[OF m2] obtain v where v: "s1 = v @ s'" "v \<in> lang db b" "p' = after p1 v"
    by blast
  show ?case
    using u v by (intro exI[of _ "u @ v"]) (auto simp: after_append)
next
  case (Alt a b)
  from Alt.prems have "(p', s', g') \<in> set (ms a db (p, s, g)) \<or>
                       (p', s', g') \<in> set (ms b db (p, s, g))"
    by simp
  then show ?case
  proof
    assume "(p', s', g') \<in> set (ms a db (p, s, g))"
    from Alt.IH(1)[OF this] show ?thesis by auto
  next
    assume "(p', s', g') \<in> set (ms b db (p, s, g))"
    from Alt.IH(2)[OF this] show ?thesis by auto
  qed
next
  case (Rep lo hi a)
  define n where "n = (case hi of None \<Rightarrow> length s | Some h \<Rightarrow> h)"
  have "(p', s', g') \<in> set (rep (ms a db) lo n (p, s, g))"
    using Rep.prems by (cases hi) (simp_all add: n_def)
  then have "\<exists>ws. s = concat ws @ s' \<and> lo \<le> length ws \<and> length ws \<le> n \<and>
                 set ws \<subseteq> lang db a \<and> p' = after p (concat ws)"
    by (rule rep_sound[rotated]) (rule Rep.IH)
  then obtain ws where ws: "s = concat ws @ s'" "lo \<le> length ws" "length ws \<le> n"
    "set ws \<subseteq> lang db a" "p' = after p (concat ws)"
    by blast
  have "concat ws \<in> lang db (Rep lo hi a)"
    using ws by (auto simp: n_def split: option.splits)
  with ws show ?case by blast
next
  case (Grp k a)
  then show ?case by auto
next
  case (Look a)
  then show ?case
    by (auto simp: after_Nil split: list.splits)
next
  case WordB
  then show ?case
    by (auto simp: after_Nil split: if_splits)
qed

lemma rep_invariant:
  assumes step: "\<And>st st'. st' \<in> set (f st) \<Longrightarrow> R st st'"
    and refl: "\<And>st. R st st"
    and trans: "\<And>a b c. R a b \<Longrightarrow> R b c \<Longrightarrow> R a c"
  shows "st' \<in> set (rep f lo hi st) \<Longrightarrow> R st st'"
proof (induction hi arbitrary: lo st)
  case 0
  then show ?case by (auto simp: refl split: if_splits)
next
  case (Suc hi)
  from Suc.prems consider
    (more) mid where "mid \<in> set (f st)" "st' \<in> set (rep f (lo - 1) hi mid)"
    | (stop) "st' = st"
    by (auto split: if_splits)
  then show ?case
  proof cases
    case more
    from step[OF more(1)] Suc.IH[OF more(2)] show ?thesis by (rule trans)
  next
    case stop
    then show ?thesis by (simp add: refl)
  qed
qed

lemma ms_groups_other:
  "(p', s', g') \<in> set (ms r db (p, s, g)) \<Longrightarrow> k \<notin> grps r \<Longrightarrow> g' k = g k"
proof (induction r arbitrary: p s g p' s' g')
  case (One cs)
  then show ?case by (auto split: list.splits if_splits)
next
  case (Seq a b)
  from Seq.prems obtain p1 s1 g1 where
    "(p1, s1, g1) \<in> set (ms a db (p, s, g))" "(p', s', g') \<in> set (ms b db (p1, s1, g1))"
    by auto
  with Seq.IH(1)[of p1 s1 g1 p s g] Seq.IH(2)[of p' s' g' p1 s1 g1] Seq.prems(2)
  show ?case by simp
next
  case (Alt a b)
  from Alt.prems have "(p', s', g') \<in> set (ms a db (p, s, g)) \<or>
                       (p', s', g') \<in> set (ms b db (p, s, g))"
    by simp
  then show ?case
    using Alt.IH Alt.prems(2) by auto
next
  case (Rep lo hi a)
  define n where "n = (case hi of None \<Rightarrow> length s | Some h \<Rightarrow> h)"
  have m: "(p', s', g') \<in> set (rep (ms a db) lo n (p, s, g))"
    using Rep.prems by (cases hi) (simp_all add: n_def)
  have "snd (snd (p', s', g')) k = snd (snd (p, s, g)) k"
    by (rule rep_invariant[where f = "ms a db" and
          R = "\<lambda>x y. snd (snd y) k = snd (snd x) k", OF _ _ _ m])
       (use Rep in auto)
  then show ?case by simp
next
  case (Grp j a)
  then show ?case by auto
next
  case (Look a)
  from Look.prems(1) obtain q r l where "ms a db (p, s, g) = (q, r, g') # l"
    by (cases "ms a db (p, s, g)") auto
  then have "(q, r, g') \<in> set (ms a db (p, s, g))" by simp
  from Look.IH[OF this] Look.prems(2) show ?case by simp
next
  case WordB
  then show ?case by (auto split: if_splits)
qed

lemma ms_Grp_sets:
  assumes "(p', s', g') \<in> set (ms (Grp k a) db (p, s, g))"
  shows "\<exists>w. s = w @ s' \<and> w \<in> lang db a \<and> g' k = Some w \<and> p' = after p w"
proof -
  from assms obtain g0 where m: "(p', s', g0) \<in> set (ms a db (p, s, g))"
    and g': "g' = g0(k \<mapsto> take (length s - length s') s)"
    by auto
  from ms_sound[OF m] obtain w where w: "s = w @ s'" "w \<in> lang db a" "p' = after p w"
    by blast
  then have "take (length s - length s') s = w" by simp
  with w g' show ?thesis by simp
qed

lemma search_found:
  "search r db p s = Some m \<Longrightarrow>
   \<exists>pre rest. s = pre @ rest \<and> m \<in> set (ms r db (after p pre, rest, Map.empty))"
proof (induction r db p s rule: search.induct)
  case (1 r db p)
  then show ?case
    by (intro exI[of _ "[]"]) (auto simp: after_Nil split: list.splits)
next
  case (2 r db p c cs)
  show ?case
  proof (cases "ms r db (p, c # cs, Map.empty)")
    case Nil
    with "2.prems" have "search r db (Some c) cs = Some m" by simp
    from "2.IH"[OF Nil this] obtain pre rest where
      "cs = pre @ rest" "m \<in> set (ms r db (after (Some c) pre, rest, Map.empty))"
      by blast
    then show ?thesis
      by (intro exI[of _ "c # pre", where P = "\<lambda>pre. \<exists>rest. c # cs = pre @ rest \<and> m \<in> set (ms r db (after p pre, rest, Map.empty))"] exI[of _ rest]) (auto simp: after_def split: if_splits)
  next
    case (Cons x xs)
    with "2.prems" have "m \<in> set (ms r db (p, c # cs, Map.empty))" by simp
    then show ?thesis
      by (intro exI[of _ "[]"] exI[of _ "c # cs"]) (simp add: after_Nil)
  qed
qed

text \<open>
  The bound on an unbounded repetition loses no match: when the body cannot consume the
  empty string, every larger bound gives the same matches in the same order. The bodies
  repeated without bound in this program are a whitespace character, a digit, and a
  separator followed by three digits.
\<close>

lemma rep_more_fuel:
  assumes shorter: "\<And>p s g p' s' g'. (p', s', g') \<in> set (f (p, s, g)) \<Longrightarrow> length s' < length s"
  shows "length s \<le> n \<Longrightarrow> length s \<le> m \<Longrightarrow> rep f lo n (p, s, g) = rep f lo m (p, s, g)"
proof (induction n arbitrary: m lo p s g)
  case 0
  then have "s = []" by simp
  have "f (p, [], g) = []"
  proof (cases "f (p, [], g)")
    case (Cons x xs)
    obtain p' s' g' where "x = (p', s', g')" by (cases x)
    with Cons shorter[of p' s' g' p "[]" g] show ?thesis by simp
  qed simp
  with \<open>s = []\<close> show ?case by (cases m) simp_all
next
  case (Suc n)
  show ?case
  proof (cases m)
    case 0
    with Suc.prems have "s = []" by simp
    have "f (p, [], g) = []"
    proof (cases "f (p, [], g)")
      case (Cons x xs)
      obtain p' s' g' where "x = (p', s', g')" by (cases x)
      with Cons shorter[of p' s' g' p "[]" g] show ?thesis by simp
    qed simp
    with \<open>s = []\<close> 0 show ?thesis by simp
  next
    case (Suc m')
    have "rep f (lo - 1) n x = rep f (lo - 1) m' x" if "x \<in> set (f (p, s, g))" for x
    proof -
      obtain p' s' g' where x: "x = (p', s', g')" by (cases x)
      with that shorter[of p' s' g' p s g] have "length s' < length s" by simp
      with Suc.prems \<open>m = Suc m'\<close> have "length s' \<le> n" "length s' \<le> m'" by simp_all
      from Suc.IH[OF this] x show ?thesis by simp
    qed
    then have eq: "map (rep f (lo - 1) n) (f (p, s, g)) = map (rep f (lo - 1) m') (f (p, s, g))"
      by (intro map_cong[OF refl])
    show ?thesis
      unfolding \<open>m = Suc m'\<close> rep.simps(2) eq by (rule refl)
  qed
qed

lemma unbounded_rep_any_bound:
  assumes "[] \<notin> lang db a" "length s \<le> n"
  shows "ms (Rep lo None a) db (p, s, g) = rep (ms a db) lo n (p, s, g)"
proof -
  have "length s' < length s" if "(p', s', g') \<in> set (ms a db (p, s, g))" for p s g p' s' g'
  proof -
    from ms_sound[OF that] obtain w where "s = w @ s'" "w \<in> lang db a" by blast
    with assms(1) show ?thesis by (cases w) auto
  qed
  then have "rep (ms a db) lo (length s) (p, s, g) = rep (ms a db) lo n (p, s, g)"
    using assms(2) by (intro rep_more_fuel) simp_all
  then show ?thesis by simp
qed

lemma repeated_bodies_consume:
  "[] \<notin> lang db (One cs)"
  "[] \<notin> lang db (Seq (One cs) r)"
  by auto

section \<open>Properties of the amount extractor\<close>


lemma concat_singletons:
  "set ws \<subseteq> {[c] | c. P c} \<Longrightarrow> length (concat ws) = length ws \<and> list_all P (concat ws)"
  by (induction ws) auto

lemma lang_digits:
  assumes "w \<in> lang db (Rep lo hi (One [Digit]))"
  shows "lo \<le> length w \<and> (case hi of None \<Rightarrow> True | Some h \<Rightarrow> length w \<le> h) \<and>
         list_all (is_decimal db) w"
proof -
  from assms obtain ws where ws: "w = concat ws" "lo \<le> length ws"
    "case hi of None \<Rightarrow> True | Some h \<Rightarrow> length ws \<le> h"
    "set ws \<subseteq> {[c] | c. is_decimal db c}"
    by auto
  from concat_singletons[OF ws(4)] ws(1-3) show ?thesis by (cases hi) simp_all
qed

lemma lang_Seq_E:
  "w \<in> lang db (Seq a b) \<Longrightarrow> \<exists>u v. w = u @ v \<and> u \<in> lang db a \<and> v \<in> lang db b"
  by simp

lemma lang_One_E:
  "w \<in> lang db (One cs) \<Longrightarrow> \<exists>c. w = [c] \<and> list_ex (\<lambda>k. cls_match db k c) cs"
  by simp

lemma lang_Rep_E:
  "w \<in> lang db (Rep lo hi a) \<Longrightarrow>
   \<exists>ws. w = concat ws \<and> lo \<le> length ws \<and> set ws \<subseteq> lang db a"
  by auto

lemma ms_Seq_E:
  "(p', s', g') \<in> set (ms (Seq a b) db st) \<Longrightarrow>
   \<exists>p1 s1 g1. (p1, s1, g1) \<in> set (ms a db st) \<and> (p', s', g') \<in> set (ms b db (p1, s1, g1))"
  by auto

lemma lang_amount_token:
  assumes "w \<in> lang db amount_token_re"
  shows "amount_token db w"
proof -
  let ?G = "Seq (One [Lit 0x2C, Space]) (Rep 3 (Some 3) (One [Digit]))"
  from assms have "w \<in> lang db (Seq (Rep 1 (Some 3) (One [Digit])) (Rep 1 None ?G)) \<union>
                       lang db (Rep 4 None (One [Digit]))"
    by (simp only: amount_token_re_def lang.simps(3))
  then consider
    (grouped) "w \<in> lang db (Seq (Rep 1 (Some 3) (One [Digit])) (Rep 1 None ?G))"
    | (plain) "w \<in> lang db (Rep 4 None (One [Digit]))"
    by blast
  then show ?thesis
  proof cases
    case grouped
    from lang_Seq_E[OF this] obtain lead v where
      lv: "w = lead @ v" "lead \<in> lang db (Rep 1 (Some 3) (One [Digit]))"
      "v \<in> lang db (Rep 1 None ?G)"
      by blast
    from lang_digits[OF lv(2)] have lead: "1 \<le> length lead" "length lead \<le> 3"
      "list_all (is_decimal db) lead"
      by simp_all
    from lang_Rep_E[OF lv(3)] obtain groups where gs: "v = concat groups" "1 \<le> length groups"
      "set groups \<subseteq> lang db ?G"
      by blast
    have "\<exists>sep ds. grp = sep # ds \<and> (sep = 0x2C \<or> is_space sep) \<and> length ds = 3 \<and>
                    list_all (is_decimal db) ds"
      if "grp \<in> set groups" for grp
    proof -
      from that gs(3) have "grp \<in> lang db ?G" by blast
      from lang_Seq_E[OF this] obtain u ds where
        u: "grp = u @ ds" "u \<in> lang db (One [Lit 0x2C, Space])"
        "ds \<in> lang db (Rep 3 (Some 3) (One [Digit]))"
        by blast
      from lang_One_E[OF u(2)] obtain sep where "u = [sep]" "sep = 0x2C \<or> is_space sep"
        by auto
      with u(1) lang_digits[OF u(3)] show ?thesis by simp
    qed
    then have "list_all (\<lambda>grp. \<exists>sep ds. grp = sep # ds \<and> (sep = 0x2C \<or> is_space sep) \<and>
                 length ds = 3 \<and> list_all (is_decimal db) ds) groups"
      by (simp add: list_all_iff)
    moreover from gs(2) have "groups \<noteq> []" by auto
    ultimately have "thousands_grouped db w"
      unfolding thousands_grouped_def using lv(1) gs(1) lead by blast
    then show ?thesis by (simp add: amount_token_def)
  next
    case plain
    from lang_digits[OF this] show ?thesis
      by (simp add: amount_token_def plain_run_def)
  qed
qed

lemma amount_token_has_digit:
  assumes "amount_token db tok"
  shows "re_sub_nondigit db tok \<noteq> []"
proof -
  have "\<exists>c \<in> set tok. is_decimal db c"
  proof (cases "plain_run db tok")
    case True
    then have "tok \<noteq> []" "list_all (is_decimal db) tok"
      by (auto simp: plain_run_def)
    then have "hd tok \<in> set tok" "is_decimal db (hd tok)"
      by (simp_all add: list_all_iff)
    then show ?thesis by blast
  next
    case False
    with assms obtain lead groups where
      "tok = lead @ concat groups" "1 \<le> length lead" "list_all (is_decimal db) lead"
      unfolding amount_token_def thousands_grouped_def by blast
    then have "hd lead \<in> set tok" "is_decimal db (hd lead)"
      by (cases lead; simp)+
    then show ?thesis by blast
  qed
  then show ?thesis
    by (simp add: re_sub_nondigit_def filter_empty_conv)
qed

lemma amount_match:
  assumes "(p', s', g') \<in> set (ms amount_re db (p, s, g))"
  shows "\<exists>tok. s = tok @ s' \<and> amount_token db tok \<and> g' 1 = Some tok"
proof -
  let ?L = "Look (Seq (Rep 0 None (One [Space])) (Seq (Rep 0 (Some 1) currency_re) WordB))"
  from assms have "(p', s', g') \<in> set (ms (Seq (Grp 1 amount_token_re) ?L) db (p, s, g))"
    by (simp only: amount_re_def)
  from ms_Seq_E[OF this] obtain p1 s1 g1 where
    m1: "(p1, s1, g1) \<in> set (ms (Grp 1 amount_token_re) db (p, s, g))" and
    m2: "(p', s', g') \<in> set (ms ?L db (p1, s1, g1))"
    by blast
  from ms_Grp_sets[OF m1] obtain tok where tok: "s = tok @ s1" "tok \<in> lang db amount_token_re"
    "g1 1 = Some tok"
    by blast
  from ms_sound[OF m2] have "s1 = s'" by simp
  moreover have "1 \<notin> grps ?L" by (simp add: currency_re_def)
  from ms_groups_other[OF m2 this] have "g' 1 = g1 1" .
  ultimately show ?thesis
    using tok lang_amount_token by auto
qed

lemma amount_token_nonempty: "amount_token db tok \<Longrightarrow> tok \<noteq> []"
  using amount_token_has_digit[of db tok] by (auto simp: re_sub_nondigit_def)

lemma search_amount:
  assumes "search amount_re db p s = Some (p', s', g)"
  shows "\<exists>tok. g 1 = Some tok \<and> amount_token db tok \<and> length s' < length s \<and>
               length tok \<le> length s"
proof -
  from search_found[OF assms] obtain pre rest where
    "s = pre @ rest" "(p', s', g) \<in> set (ms amount_re db (after p pre, rest, Map.empty))"
    by blast
  with amount_match[OF this(2)] amount_token_nonempty show ?thesis
    by fastforce
qed

lemma finditer_None: "search r db p s = None \<Longrightarrow> finditer r db p s = []"
  by (simp add: finditer.simps)

lemma finditer_Some:
  "search r db p s = Some (p', s', g) \<Longrightarrow> length s' < length s \<Longrightarrow>
   finditer r db p s = g # finditer r db p' s'"
  by (simp add: finditer.simps)

text \<open>Every match of the amount pattern consumes a digit, so the iteration never stops early.\<close>

lemma finditer_amount_unfold:
  "finditer amount_re db p s =
     (case search amount_re db p s of None \<Rightarrow> []
      | Some (p', s', g) \<Rightarrow> g # finditer amount_re db p' s')"
proof (cases "search amount_re db p s")
  case None
  then show ?thesis by (simp add: finditer_None)
next
  case (Some m)
  obtain p' s' g where m: "m = (p', s', g)" by (cases m)
  with Some search_amount[of db p s p' s' g] show ?thesis
    by (auto simp: finditer_Some)
qed

lemma finditer_amount_tokens:
  "\<exists>toks. map (\<lambda>g. g 1) (finditer amount_re db p s) = map Some toks \<and>
          list_all (amount_token db) toks \<and> list_all (\<lambda>tok. length tok \<le> length s) toks"
proof (induction "length s" arbitrary: p s rule: less_induct)
  case less
  show ?case
  proof (cases "search amount_re db p s")
    case None
    then show ?thesis
      by (intro exI[of _ "[]"]) (simp add: finditer_None)
  next
    case (Some m)
    obtain p' s' g where m: "m = (p', s', g)" by (cases m)
    from search_amount[of db p s p' s' g] Some m obtain tok where
      tok: "g 1 = Some tok" "amount_token db tok" "length s' < length s" "length tok \<le> length s"
      by auto
    from less[OF tok(3), of p'] obtain toks where
      toks: "map (\<lambda>g. g 1) (finditer amount_re db p' s') = map Some toks"
      "list_all (amount_token db) toks" "list_all (\<lambda>tok. length tok \<le> length s') toks"
      by blast
    from toks(3) tok(3) have "list_all (\<lambda>tok. length tok \<le> length s) toks"
      by (auto simp: list_all_iff)
    with toks(1,2) tok Some m show ?thesis
      by (intro exI[of _ "tok # toks"]) (simp add: finditer_Some)
  qed
qed

lemma amount_tokens_eq:
  "map (\<lambda>g. g 1) gs = map Some toks \<Longrightarrow> List.map_filter (\<lambda>g. g 1) gs = toks"
  by (induction gs arbitrary: toks) (auto simp: map_filter_simps)

lemma amount_tokens_matches:
  "map (\<lambda>g. g 1) (finditer amount_re db None txt) = map Some (amount_tokens db txt) \<and>
   list_all (amount_token db) (amount_tokens db txt) \<and>
   list_all (\<lambda>tok. length tok \<le> length txt) (amount_tokens db txt)"
proof -
  from finditer_amount_tokens[of db None "txt"] obtain toks where
    toks: "map (\<lambda>g. g 1) (finditer amount_re db None txt) = map Some toks"
    "list_all (amount_token db) toks" "list_all (\<lambda>tok. length tok \<le> length txt) toks"
    by blast
  from amount_tokens_eq[OF toks(1)] have "amount_tokens db txt = toks"
    by (simp add: amount_tokens_def)
  with toks show ?thesis by simp
qed

lemma amount_values_tokens:
  assumes "map (\<lambda>g. g 1) gs = map Some toks" "list_all (amount_token db) toks"
    "list_all (\<lambda>tok. \<not> too_many_digits db (re_sub_nondigit db tok)) toks"
  shows "amount_values db gs = Inr (map (\<lambda>tok. int_value db (re_sub_nondigit db tok)) toks)"
  using assms
proof (induction gs arbitrary: toks)
  case Nil
  then show ?case by simp
next
  case (Cons g gs)
  then obtain tok rest where t: "toks = tok # rest" "g 1 = Some tok"
    "map (\<lambda>g. g 1) gs = map Some rest" "amount_token db tok" "list_all (amount_token db) rest"
    "\<not> too_many_digits db (re_sub_nondigit db tok)"
    "list_all (\<lambda>tok. \<not> too_many_digits db (re_sub_nondigit db tok)) rest"
    by (cases toks) auto
  have "py_int db (re_sub_nondigit db tok) = Inr (int_value db (re_sub_nondigit db tok))"
    using amount_token_has_digit[OF t(4)] t(6) by (rule py_int_of_digits)
  with Cons.IH[OF t(3) t(5) t(7)] t show ?case by simp
qed

text \<open>A token with more digits than \<open>int\<close> converts makes the loop raise \<open>ValueError\<close>.\<close>

lemma amount_values_raises:
  assumes "map (\<lambda>g. g 1) gs = map Some toks"
    "\<not> list_all (\<lambda>tok. \<not> too_many_digits db (re_sub_nondigit db tok)) toks"
  shows "amount_values db gs = Inl ValueError"
  using assms
proof (induction gs arbitrary: toks)
  case Nil
  then show ?case by simp
next
  case (Cons g gs)
  then obtain tok rest where t: "toks = tok # rest" "g 1 = Some tok"
    "map (\<lambda>g. g 1) gs = map Some rest"
    by (cases toks) auto
  show ?case
  proof (cases "py_int db (re_sub_nondigit db tok)")
    case (Inl e)
    with py_int_raises_ValueError[OF Inl] t(2) show ?thesis by simp
  next
    case (Inr v)
    then have "\<not> too_many_digits db (re_sub_nondigit db tok)"
      using py_int_too_many[of db "re_sub_nondigit db tok"] by auto
    with Cons.prems(2) t(1)
    have "\<not> list_all (\<lambda>tok. \<not> too_many_digits db (re_sub_nondigit db tok)) rest"
      by simp
    from Cons.IH[OF t(3) this] Inr t(2) show ?thesis by simp
  qed
qed

lemma foldl_max: "foldl max (x :: int) xs = Max (set (x # xs))"
proof -
  have "foldl max x xs = fold max xs x"
    by (simp add: foldl_conv_fold max.commute)
  then show ?thesis by (simp only: Max.set_eq_fold)
qed

lemma py_max_Max: "xs \<noteq> [] \<Longrightarrow> py_max xs = Inr (Max (set xs))"
  by (cases xs) (simp_all add: foldl_max del: set_simps)

lemma guess_amount_of_candidates:
  assumes "amount_values db (finditer amount_re db None txt) = Inr candidates"
  shows "guess_amount db txt =
     Inr (if \<exists>v \<in> set candidates. 1000 \<le> v then Some (Max {v \<in> set candidates. 1000 \<le> v})
          else if candidates = [] then None else Some (Max (set candidates)))"
proof -
  have big: "filter (\<lambda>v. 1000 \<le> v) candidates \<noteq> [] \<longleftrightarrow> (\<exists>v \<in> set candidates. 1000 \<le> v)"
    by (simp add: filter_empty_conv)
  have set_big: "set (filter (\<lambda>v. 1000 \<le> v) candidates) = {v \<in> set candidates. 1000 \<le> v}"
    by auto
  show ?thesis
    unfolding guess_amount_def assms
    by (simp add: Let_def py_max_Max big set_big del: set_filter)
qed

lemma big_candidates:
  "{v \<in> set candidates. (1000 :: int) \<le> v} = set (filter (\<lambda>v. 1000 \<le> v) candidates)"
  by auto

lemma finditer_step:
  assumes "map_option (\<lambda>(p', s', g). (p', s', g 1)) (search r db p s) = Some (p', s', Some tok)"
    and "length s' < length s"
  shows "map (\<lambda>g. g 1) (finditer r db p s) = Some tok # map (\<lambda>g. g 1) (finditer r db p' s')"
proof -
  from assms(1) obtain g where "search r db p s = Some (p', s', g)" "g 1 = Some tok"
    by auto
  with assms(2) show ?thesis by (simp add: finditer_Some)
qed

lemma finditer_stop:
  "search r db p s = None \<Longrightarrow> map (\<lambda>g. g 1) (finditer r db p s) = []"
  by (simp add: finditer_None)

lemma guess_amount_within_limit:
  assumes "within_int_limit db txt"
  shows "guess_amount db txt =
     (let candidates = map (\<lambda>tok. int_value db (re_sub_nondigit db tok)) (amount_tokens db txt) in
      Inr (if \<exists>v \<in> set candidates. 1000 \<le> v then Some (Max {v \<in> set candidates. 1000 \<le> v})
           else if candidates = [] then None else Some (Max (set candidates))))"
proof -
  from amount_tokens_matches[of db "txt"] assms
  have "amount_values db (finditer amount_re db None txt) =
          Inr (map (\<lambda>tok. int_value db (re_sub_nondigit db tok)) (amount_tokens db txt))"
    by (intro amount_values_tokens) (simp_all add: within_int_limit_def)
  from guess_amount_of_candidates[OF this] show ?thesis
    by (simp add: Let_def)
qed

lemma guess_amount_beyond_limit:
  assumes "\<not> within_int_limit db txt"
  shows "guess_amount db txt = Inl ValueError"
proof -
  from amount_tokens_matches[of db "txt"] assms
  have "amount_values db (finditer amount_re db None txt) = Inl ValueError"
    by (intro amount_values_raises[of _ "amount_tokens db txt"]) (simp_all add: within_int_limit_def)
  then show ?thesis
    by (simp add: guess_amount_def)
qed

text \<open>
  \<open>guess_amount\<close> returns exactly on the texts within the limit, and these include every
  text of at most 640 characters.
\<close>

lemma guess_amount_returns_iff:
  "(\<exists>r. guess_amount db txt = Inr r) \<longleftrightarrow> within_int_limit db txt"
proof (cases "within_int_limit db txt")
  case True
  from guess_amount_within_limit[OF this] True show ?thesis
    by (simp add: Let_def)
next
  case False
  from guess_amount_beyond_limit[OF this] False show ?thesis
    by simp
qed

lemma short_text_within_limit:
  assumes "length txt \<le> 640"
  shows "within_int_limit db txt"
proof -
  have "\<not> too_many_digits db (re_sub_nondigit db tok)" if "length tok \<le> length txt" for tok
  proof -
    from that assms re_sub_nondigit_length[of db tok]
    have "length (re_sub_nondigit db tok) \<le> 640" by linarith
    then show ?thesis by (rule short_not_too_many)
  qed
  with amount_tokens_matches[of db "txt"] show ?thesis
    by (auto simp: within_int_limit_def list_all_iff)
qed

text \<open>
  A text that is one run of four or more digits is one token: the greedy \<^verbatim>\<open>\d{4,}\<close>
  takes the whole run, after the first alternative has failed for want of a separator.
\<close>

lemma rep_digits_greedy:
  "list_all (is_decimal db) ds \<Longrightarrow> lo \<le> length ds \<Longrightarrow> length ds \<le> fuel \<Longrightarrow>
   \<exists>rest. rep (ms (One [Digit]) db) lo fuel (p, ds, g) = (after p ds, [], g) # rest"
proof (induction ds arbitrary: lo fuel p)
  case Nil
  then show ?case by (cases fuel) (simp_all add: after_Nil)
next
  case (Cons c r)
  from Cons.prems(3) obtain k where k: "fuel = Suc k" "length r \<le> k"
    by (cases fuel) simp_all
  from Cons.prems have "list_all (is_decimal db) r" "lo - 1 \<le> length r" "is_decimal db c"
    by simp_all
  from Cons.IH[OF this(1,2) k(2), of "Some c"] obtain rest where
    more: "rep (ms (One [Digit]) db) (lo - 1) k (Some c, r, g) = (after (Some c) r, [], g) # rest"
    by blast
  have aft: "after (Some c) r = after p (c # r)"
    by (simp add: after_def)
  have one: "ms (One [Digit]) db (p, c # r, g) = [(Some c, r, g)]"
    using \<open>is_decimal db c\<close> by simp
  have "rep (ms (One [Digit]) db) lo (Suc k) (p, c # r, g) =
          rep (ms (One [Digit]) db) (lo - 1) k (Some c, r, g) @
          (if lo = 0 then [(p, c # r, g)] else [])"
    by (simp only: rep.simps one list.map concat.simps append_Nil2)
  then have "rep (ms (One [Digit]) db) lo fuel (p, c # r, g) =
          (after p (c # r), [], g) # (rest @ (if lo = 0 then [(p, c # r, g)] else []))"
    by (simp only: more aft k(1) append_Cons)
  then show ?case by (rule exI)
qed

lemma grouped_fails_on_digits:
  assumes "list_all (\<lambda>c. c \<noteq> 0x2C \<and> \<not> is_space c) ds"
  shows "ms (Seq (Rep 1 (Some 3) (One [Digit]))
                 (Rep 1 None (Seq (One [Lit 0x2C, Space]) (Rep 3 (Some 3) (One [Digit])))))
            db (p, ds, g) = []"
proof -
  let ?G = "Seq (One [Lit 0x2C, Space]) (Rep 3 (Some 3) (One [Digit]))"
  have "ms (Rep 1 None ?G) db st = []"
    if "st \<in> set (ms (Rep 1 (Some 3) (One [Digit])) db (p, ds, g))" for st
  proof -
    obtain p' s' g' where st: "st = (p', s', g')" by (cases st)
    from ms_sound[of p' s' g' "Rep 1 (Some 3) (One [Digit])" db p ds g] that st
    obtain w where "ds = w @ s'" by blast
    with assms have "list_all (\<lambda>c. c \<noteq> 0x2C \<and> \<not> is_space c) s'" by simp
    then show ?thesis
      unfolding st by (cases s') simp_all
  qed
  then show ?thesis by simp
qed

lemma search_digit_run:
  assumes "list_all (is_decimal db) ds" "list_all (\<lambda>c. c \<noteq> 0x2C \<and> \<not> is_space c) ds"
    "4 \<le> length ds" "is_word db (last ds)"
  shows "\<exists>g. search amount_re db p ds = Some (Some (last ds), [], g) \<and> g 1 = Some ds"
proof -
  let ?L = "Look (Seq (Rep 0 None (One [Space])) (Seq (Rep 0 (Some 1) currency_re) WordB))"
  from assms(3) have ne: "ds \<noteq> []" by auto
  then have aft: "after p ds = Some (last ds)" by (simp add: after_def)
  from rep_digits_greedy[OF assms(1,3), of "length ds" p Map.empty] obtain rest where
    "ms (Rep 4 None (One [Digit])) db (p, ds, Map.empty) = (Some (last ds), [], Map.empty) # rest"
    by (auto simp: aft)
  with grouped_fails_on_digits[OF assms(2), of db p Map.empty]
  have "ms amount_token_re db (p, ds, Map.empty) = (Some (last ds), [], Map.empty) # rest"
    by (simp add: amount_token_re_def)
  then obtain rest1 where tok:
    "ms (Grp 1 amount_token_re) db (p, ds, Map.empty) = (Some (last ds), [], [1 \<mapsto> ds]) # rest1"
    by simp
  have look: "ms ?L db (Some (last ds), [], [1 \<mapsto> ds]) = [(Some (last ds), [], [1 \<mapsto> ds])]"
    using assms(4) by (simp add: currency_re_def at_boundary_def)
  have "ms amount_re db (p, ds, Map.empty) =
          (Some (last ds), [], [1 \<mapsto> ds]) # concat (map (ms ?L db) rest1)"
    by (simp only: amount_re_def ms.simps(2) tok list.map concat.simps look append_Cons append_Nil)
  with ne show ?thesis
    by (cases ds) simp_all
qed

lemma digit_run_beyond_limit:
  assumes "list_all (is_decimal db) ds" "list_all (\<lambda>c. c \<noteq> 0x2C \<and> \<not> is_space c) ds"
    "is_word db (last ds)" "too_many_digits db ds"
  shows "guess_amount db ds = Inl ValueError"
proof -
  from assms(4) have "4 \<le> length ds"
    by (simp add: too_many_digits_def)
  from search_digit_run[OF assms(1,2) this assms(3), of None] obtain g where
    g: "search amount_re db None ds = Some (Some (last ds), [], g)" "g 1 = Some ds"
    by blast
  then have "\<exists>rest. amount_tokens db ds = ds # rest"
    by (simp add: amount_tokens_def finditer_amount_unfold[of db None ds] map_filter_simps)
  moreover from assms(1) have "re_sub_nondigit db ds = ds"
    by (simp add: re_sub_nondigit_def list_all_iff)
  ultimately have "\<not> within_int_limit db ds"
    using assms(4) by (auto simp: within_int_limit_def)
  then show ?thesis by (rule guess_amount_beyond_limit)
qed

text \<open>
  C1, as the code has it. On a text in which no numeric token has more digits than
  \<open>int\<close> converts, the matches of the amount pattern are the numeric tokens of the text
  (thousands-grouped numbers or plain runs of four or more digits). With the candidates
  being the values of their digits, \<open>guess_amount\<close> returns the largest candidate that is
  at least 1000 when there is one, else the largest candidate, and \<open>None\<close> when nothing
  matched. On the receipt line of the example it returns 12345.
\<close>

theorem guess_amount_selects_maximum:
  assumes "within_int_limit db txt"
  shows "map (\<lambda>g. g 1) (finditer amount_re db None txt) = map Some (amount_tokens db txt) \<and>
     list_all (amount_token db) (amount_tokens db txt) \<and>
     (let candidates = map (\<lambda>tok. int_value db (re_sub_nondigit db tok)) (amount_tokens db txt) in
      guess_amount db txt =
        Inr (if \<exists>v \<in> set candidates. 1000 \<le> v
             then Some (Max {v \<in> set candidates. 1000 \<le> v})
             else if candidates = [] then None else Some (Max (set candidates)))) \<and>
     guess_amount basic_db receipt_line = Inr (Some 12345)"
proof (intro conjI)
  from amount_tokens_matches[of db "txt"]
  show "map (\<lambda>g. g 1) (finditer amount_re db None txt) = map Some (amount_tokens db txt)"
    and "list_all (amount_token db) (amount_tokens db txt)"
    by simp_all
  from guess_amount_within_limit[OF assms]
  show "let candidates = map (\<lambda>tok. int_value db (re_sub_nondigit db tok)) (amount_tokens db txt) in
      guess_amount db txt =
        Inr (if \<exists>v \<in> set candidates. 1000 \<le> v
             then Some (Max {v \<in> set candidates. 1000 \<le> v})
             else if candidates = [] then None else Some (Max (set candidates)))"
    by (simp add: Let_def)
next
  let ?rest = "[0xC6D0, 0x20, 0xD3EC, 0xC778, 0xD2B8] @ cp '' 50''"
  have 1: "map_option (\<lambda>(p', s', g). (p', s', g 1)) (search amount_re basic_db None receipt_line)
             = Some (Some 0x35, ?rest, Some (cp ''12,345''))"
    by code_simp
  have 2: "search amount_re basic_db (Some 0x35) ?rest = None"
    by code_simp
  have l: "length ?rest < length receipt_line"
    by (simp add: receipt_line_def cp_def)
  have "map (\<lambda>g. g 1) (finditer amount_re basic_db None receipt_line) = map Some [cp ''12,345'']"
    using finditer_step[OF 1 l] finditer_stop[OF 2] by simp
  from amount_tokens_eq[OF this] have toks: "amount_tokens basic_db receipt_line = [cp ''12,345'']"
    by (simp add: amount_tokens_def)
  have "length receipt_line \<le> 640"
    by (simp add: receipt_line_def cp_def)
  from guess_amount_within_limit[OF short_text_within_limit[OF this], of basic_db]
  have "guess_amount basic_db receipt_line =
      (let candidates = [int_value basic_db (re_sub_nondigit basic_db (cp ''12,345''))] in
       Inr (if \<exists>v \<in> set candidates. 1000 \<le> v then Some (Max {v \<in> set candidates. 1000 \<le> v})
            else if candidates = [] then None else Some (Max (set candidates))))"
    by (simp add: toks)
  moreover have "int_value basic_db (re_sub_nondigit basic_db (cp ''12,345'')) = 12345"
    by code_simp
  ultimately show "guess_amount basic_db receipt_line = Inr (Some 12345)"
    unfolding Let_def big_candidates by simp
qed

text \<open>
  Two texts within the limit. In the first the second token decides; in the second no
  candidate reaches 1000 and the largest of all is returned.
\<close>

theorem guess_amount_selects_maximum_witness:
  "within_int_limit basic_db (cp ''1,000 20,000'') \<and>
   amount_tokens basic_db (cp ''1,000 20,000'') = [cp ''1,000'', cp ''20,000''] \<and>
   guess_amount basic_db (cp ''1,000 20,000'') = Inr (Some 20000) \<and>
   within_int_limit basic_db (cp ''x3 0,500 0,001 12'') \<and>
   amount_tokens basic_db (cp ''x3 0,500 0,001 12'') = [cp ''0,500'', cp ''0,001''] \<and>
   guess_amount basic_db (cp ''x3 0,500 0,001 12'') = Inr (Some 500)"
proof -
  let ?a = "cp ''1,000 20,000''"
  let ?b = "cp ''x3 0,500 0,001 12''"
  have wa: "within_int_limit basic_db ?a"
    by (rule short_text_within_limit) (simp add: cp_def)
  have wb: "within_int_limit basic_db ?b"
    by (rule short_text_within_limit) (simp add: cp_def)
  have a1: "map_option (\<lambda>(p', s', g). (p', s', g 1)) (search amount_re basic_db None ?a)
             = Some (Some 0x30, cp '' 20,000'', Some (cp ''1,000''))"
    by code_simp
  have a2: "map_option (\<lambda>(p', s', g). (p', s', g 1))
             (search amount_re basic_db (Some 0x30) (cp '' 20,000''))
             = Some (Some 0x30, [], Some (cp ''20,000''))"
    by code_simp
  have a3: "search amount_re basic_db (Some 0x30) [] = None"
    by code_simp
  have "map (\<lambda>g. g 1) (finditer amount_re basic_db None ?a) = map Some [cp ''1,000'', cp ''20,000'']"
    using finditer_step[OF a1] finditer_step[OF a2] finditer_stop[OF a3]
    by (simp add: cp_def)
  from amount_tokens_eq[OF this] have ta: "amount_tokens basic_db ?a = [cp ''1,000'', cp ''20,000'']"
    by (simp add: amount_tokens_def)
  have b1: "map_option (\<lambda>(p', s', g). (p', s', g 1)) (search amount_re basic_db None ?b)
             = Some (Some 0x30, cp '' 0,001 12'', Some (cp ''0,500''))"
    by code_simp
  have b2: "map_option (\<lambda>(p', s', g). (p', s', g 1))
             (search amount_re basic_db (Some 0x30) (cp '' 0,001 12''))
             = Some (Some 0x31, cp '' 12'', Some (cp ''0,001''))"
    by code_simp
  have b3: "search amount_re basic_db (Some 0x31) (cp '' 12'') = None"
    by code_simp
  have "map (\<lambda>g. g 1) (finditer amount_re basic_db None ?b) = map Some [cp ''0,500'', cp ''0,001'']"
    using finditer_step[OF b1] finditer_step[OF b2] finditer_stop[OF b3]
    by (simp add: cp_def)
  from amount_tokens_eq[OF this] have tb: "amount_tokens basic_db ?b = [cp ''0,500'', cp ''0,001'']"
    by (simp add: amount_tokens_def)
  have v: "int_value basic_db (re_sub_nondigit basic_db (cp ''1,000'')) = 1000"
    "int_value basic_db (re_sub_nondigit basic_db (cp ''20,000'')) = 20000"
    "int_value basic_db (re_sub_nondigit basic_db (cp ''0,500'')) = 500"
    "int_value basic_db (re_sub_nondigit basic_db (cp ''0,001'')) = 1"
    by code_simp+
  from guess_amount_selects_maximum[OF wa]
  have ra: "guess_amount basic_db ?a = Inr (Some 20000)"
    unfolding ta Let_def big_candidates by (simp add: v)
  from guess_amount_selects_maximum[OF wb]
  have rb: "guess_amount basic_db ?b = Inr (Some 500)"
    unfolding tb Let_def big_candidates by (simp add: v)
  from wa ta ra wb tb rb show ?thesis by simp
qed

text \<open>
  Not every text is within the limit. A run of 4301 nines is one numeric token, and on an
  interpreter with the limit of 4300 digits \<open>guess_amount\<close> raises \<open>ValueError\<close> on it
  instead of returning the value of the run.
\<close>

theorem guess_amount_beyond_limit_counterexample:
  "guess_amount basic_db (replicate 4301 0x39) = Inl ValueError"
proof (rule digit_run_beyond_limit)
  show "list_all (is_decimal basic_db) (replicate 4301 0x39)"
    by (simp add: list_all_iff is_decimal_def basic_db_def)
  show "list_all (\<lambda>c. c \<noteq> 0x2C \<and> \<not> is_space c) (replicate 4301 0x39)"
    by (simp add: list_all_iff is_space_def)
  show "is_word basic_db (last (replicate 4301 0x39))"
    by (simp add: is_word_def basic_db_def)
  show "too_many_digits basic_db (replicate 4301 0x39)"
    by (simp add: too_many_digits_def basic_db_def)
qed

section \<open>Properties of the date and time extractor\<close>



lemma ms_digit:
  "ms (One [Digit]) db (p, s, g) =
     (case s of [] \<Rightarrow> [] | c # r \<Rightarrow> if is_decimal db c then [(Some c, r, g)] else [])"
  by (simp split: list.splits)

lemma digit_run_Nil [simp]: "digit_run db n [] = []"
  by (simp add: digit_run_def)

lemma digit_run_0 [simp]: "digit_run db 0 s = []"
  by (simp add: digit_run_def)

lemma digit_run_Cons:
  "digit_run db (Suc n) (c # r) = (if is_decimal db c then c # digit_run db n r else [])"
  by (simp add: digit_run_def)

lemma digit_run_prefix: "\<exists>r. s = digit_run db n s @ r"
proof -
  have "s = take n s @ drop n s" by simp
  moreover have "take n s = digit_run db n s @ dropWhile (is_decimal db) (take n s)"
    by (simp add: digit_run_def)
  ultimately show ?thesis by (metis append.assoc)
qed

lemma digit_run_digits: "list_all (is_decimal db) (digit_run db n s)"
  by (simp add: digit_run_def list_all_iff) (meson set_takeWhileD)

lemma digit_run_length: "length (digit_run db n s) \<le> n"
proof -
  have "length (digit_run db n s) \<le> length (take n s)"
    unfolding digit_run_def by (rule length_takeWhile_le)
  then show ?thesis by simp
qed

lemma digit_run_full:
  assumes "length (digit_run db n s) = n"
  shows "digit_run db n s = take n s"
proof -
  have "digit_run db n s @ dropWhile (is_decimal db) (take n s) = take n s"
    by (simp add: digit_run_def)
  then have "length (digit_run db n s) + length (dropWhile (is_decimal db) (take n s))
               = length (take n s)"
    by (metis length_append)
  moreover have "length (take n s) \<le> n"
    by simp
  ultimately have "length (dropWhile (is_decimal db) (take n s)) = 0"
    using assms by linarith
  then have "dropWhile (is_decimal db) (take n s) = []"
    by (simp only: length_0_conv)
  with \<open>digit_run db n s @ dropWhile (is_decimal db) (take n s) = take n s\<close>
  show ?thesis by simp
qed

lemma rep_exact:
  "rep (ms (One [Digit]) db) n n (p, s, g) =
     (if length (digit_run db n s) = n then [(after p (take n s), drop n s, g)] else [])"
proof (induction n arbitrary: p s)
  case 0
  show ?case by (simp add: after_def)
next
  case (Suc n)
  show ?case
  proof (cases s)
    case Nil
    then show ?thesis by simp
  next
    case (Cons c r)
    show ?thesis
    proof (cases "is_decimal db c")
      case True
      have "after (Some c) (take n r) = after p (c # take n r)"
        by (simp add: after_def)
      with True Cons Suc.IH[of "Some c" r] show ?thesis
        by (simp add: digit_run_Cons)
    next
      case False
      with Cons show ?thesis by (simp add: digit_run_Cons)
    qed
  qed
qed




text \<open>From here on the equations of the matcher are unfolded only where a proof names them.\<close>

declare ms.simps [simp del]

lemma first_match_simps [simp]:
  "first_match [] = None"
  "first_match (m # xs) = Some (snd (snd m))"
  by (simp_all add: first_match_def)

lemma ms_Grp_exact:
  "ms (Grp k (Rep n (Some n) (One [Digit]))) db (p, s, g) =
     (if length (digit_run db n s) = n
      then [(after p (take n s), drop n s, g(k \<mapsto> take n s))] else [])"
proof (cases "length (digit_run db n s) = n")
  case True
  have "length (digit_run db n s) \<le> length (take n s)"
    unfolding digit_run_def by (rule length_takeWhile_le)
  with True have "n \<le> length s" by simp
  then have "take (length s - (length s - n)) s = take n s" by simp
  with True show ?thesis
    by (simp add: rep_exact ms.simps(4,5))
next
  case False
  then show ?thesis
    by (simp add: rep_exact ms.simps(4,5))
qed

lemma ms_Grp_1_2:
  "ms (Grp k (Rep (Suc 0) (Some 2) (One [Digit]))) db (p, s, g) =
     (case s of [] \<Rightarrow> []
      | a # r \<Rightarrow>
          if \<not> is_decimal db a then []
          else (case r of [] \<Rightarrow> [(Some a, [], g(k \<mapsto> [a]))]
                | b # r' \<Rightarrow>
                    if is_decimal db b
                    then [(Some b, r', g(k \<mapsto> [a, b])), (Some a, r, g(k \<mapsto> [a]))]
                    else [(Some a, r, g(k \<mapsto> [a]))]))"
  by (simp add: ms.simps numeral_2_eq_2 split: list.splits)

lemma digit_run_2:
  "digit_run db 2 s =
     (case s of [] \<Rightarrow> []
      | a # r \<Rightarrow>
          if \<not> is_decimal db a then []
          else (case r of [] \<Rightarrow> [a] | b # r' \<Rightarrow> if is_decimal db b then [a, b] else [a]))"
  by (simp add: numeral_2_eq_2 digit_run_Cons split: list.splits)

lemma ms_date_sep:
  "ms date_sep db (p, s, g) =
     (case s of [] \<Rightarrow> [] | c # r \<Rightarrow> if is_date_sep c then [(Some c, r, g)] else [])"
  by (auto simp: ms.simps date_sep_def is_date_sep_def split: list.splits)

lemma ms_colon:
  "ms (One [Lit 0x3A]) db (p, s, g) =
     (case s of [] \<Rightarrow> [] | c # r \<Rightarrow> if c = 0x3A then [(Some c, r, g)] else [])"
  by (auto simp: ms.simps split: list.splits)

lemma ms_Grp_run:
  "ms (Grp k (Rep (Suc 0) (Some 2) (One [Digit]))) db (p, s, g) =
     (if digit_run db 2 s = [] then []
      else (Some (last (digit_run db 2 s)), drop (length (digit_run db 2 s)) s,
            g(k \<mapsto> digit_run db 2 s)) #
           (if length (digit_run db 2 s) = 2 then [(Some (hd s), tl s, g(k \<mapsto> [hd s]))] else []))"
  unfolding ms_Grp_1_2 digit_run_2 by (simp split: list.splits)

text \<open>The day: a separator and the longest run of one or two digits.\<close>

lemma first_match_day:
  "first_match (ms (Seq date_sep (Grp 3 (Rep (Suc 0) (Some 2) (One [Digit])))) db (p, s, g)) =
     (case s of [] \<Rightarrow> None
      | y # s4 \<Rightarrow>
          if \<not> is_date_sep y \<or> digit_run db 2 s4 = [] then None
          else Some (g(3 \<mapsto> digit_run db 2 s4)))"
  by (simp add: ms.simps(2) ms_date_sep ms_Grp_run split: list.splits)

lemma ms_no_sep:
  "s = [] \<or> \<not> is_date_sep (hd s) \<Longrightarrow> ms (Seq date_sep r) db (p, s, g) = []"
  by (cases s) (simp_all add: ms.simps(2) ms_date_sep)

lemma decimal_not_sep:
  "punctuation_not_decimal db \<Longrightarrow> is_decimal db c \<Longrightarrow> \<not> is_date_sep c \<and> c \<noteq> 0x3A"
  by (auto simp: punctuation_not_decimal_def is_date_sep_def)

lemma digit_run_2_next:
  assumes "length (digit_run db 2 s) = 2"
  shows "\<exists>a b r. s = a # b # r \<and> is_decimal db a \<and> is_decimal db b \<and> digit_run db 2 s = [a, b]"
  using assms unfolding digit_run_2 by (auto split: list.splits if_splits)

text \<open>The month and the day: the month is the longest run of one or two digits.\<close>

lemma first_match_month_day:
  assumes "punctuation_not_decimal db"
  shows "first_match (ms (Seq (Grp 2 (Rep (Suc 0) (Some 2) (One [Digit])))
                       (Seq date_sep (Grp 3 (Rep (Suc 0) (Some 2) (One [Digit]))))) db (p, s, g)) =
     (if digit_run db 2 s = [] then None
      else (case drop (length (digit_run db 2 s)) s of [] \<Rightarrow> None
            | y # s4 \<Rightarrow>
                if \<not> is_date_sep y \<or> digit_run db 2 s4 = [] then None
                else Some (g(2 \<mapsto> digit_run db 2 s, 3 \<mapsto> digit_run db 2 s4))))"
proof (cases "length (digit_run db 2 s) = 2")
  case True
  from digit_run_2_next[OF True] obtain a b r where
    s: "s = a # b # r" "is_decimal db a" "is_decimal db b" "digit_run db 2 s = [a, b]"
    by blast
  have "\<not> is_date_sep b"
    using decimal_not_sep[OF assms s(3)] by simp
  then have dead: "ms (Seq date_sep (Grp 3 (Rep (Suc 0) (Some 2) (One [Digit])))) db
                 (Some a, b # r, g(2 \<mapsto> [a])) = []"
    by (intro ms_no_sep) simp
  have "ms (Seq (Grp 2 (Rep (Suc 0) (Some 2) (One [Digit])))
             (Seq date_sep (Grp 3 (Rep (Suc 0) (Some 2) (One [Digit]))))) db (p, s, g) =
        ms (Seq date_sep (Grp 3 (Rep (Suc 0) (Some 2) (One [Digit])))) db
          (Some b, r, g(2 \<mapsto> [a, b]))"
    unfolding ms.simps(2)[of "Grp 2 (Rep (Suc 0) (Some 2) (One [Digit]))"] ms_Grp_run
    using s dead by simp
  then show ?thesis
    using s by (cases r) (simp_all add: first_match_day)
next
  case False
  then have "ms (Seq (Grp 2 (Rep (Suc 0) (Some 2) (One [Digit])))
             (Seq date_sep (Grp 3 (Rep (Suc 0) (Some 2) (One [Digit]))))) db (p, s, g) =
        (if digit_run db 2 s = [] then []
         else ms (Seq date_sep (Grp 3 (Rep (Suc 0) (Some 2) (One [Digit])))) db
                (Some (last (digit_run db 2 s)), drop (length (digit_run db 2 s)) s,
                 g(2 \<mapsto> digit_run db 2 s)))"
    unfolding ms.simps(2)[of "Grp 2 (Rep (Suc 0) (Some 2) (One [Digit]))"] ms_Grp_run
    by simp
  then show ?thesis
    by (simp add: first_match_day)
qed

lemma first_match_date_tail:
  assumes "punctuation_not_decimal db"
  shows "first_match (ms date_tail db (p, s, g)) =
           map_option (\<lambda>(m, d). g(2 \<mapsto> m, 3 \<mapsto> d)) (date_tail_at db s)"
proof (cases s)
  case Nil
  then show ?thesis
    by (simp add: date_tail_def date_tail_at_def ms.simps(2) ms_date_sep)
next
  case (Cons x s2)
  have "ms date_tail db (p, s, g) =
        (if is_date_sep x
         then ms (Seq (Grp 2 (Rep (Suc 0) (Some 2) (One [Digit])))
                  (Seq date_sep (Grp 3 (Rep (Suc 0) (Some 2) (One [Digit]))))) db (Some x, s2, g)
         else [])"
    unfolding date_tail_def ms.simps(2)[of date_sep] ms_date_sep Cons by simp
  then show ?thesis
    by (simp add: first_match_month_day[OF assms] date_tail_at_def Cons split: list.splits)
qed

lemma first_match_date:
  assumes "punctuation_not_decimal db"
  shows "first_match (ms (Seq (Grp 1 (Rep n (Some n) (One [Digit]))) date_tail) db (p, s, Map.empty)) =
           map_option date_groups (date_at db n s)"
proof -
  have "ms (Seq (Grp 1 (Rep n (Some n) (One [Digit]))) date_tail) db (p, s, Map.empty) =
        (if length (digit_run db n s) = n
         then ms date_tail db (after p (take n s), drop n s, [1 \<mapsto> take n s])
         else [])"
    unfolding ms.simps(2)[of "Grp 1 (Rep n (Some n) (One [Digit]))"] ms_Grp_exact by simp
  then show ?thesis
    by (cases "date_tail_at db (drop n s)")
       (auto simp: date_at_def date_groups_def first_match_date_tail[OF assms])
qed



lemma ms_colon_then:
  "ms (Seq (One [Lit 0x3A]) r) db (p, s, g) =
     (case s of [] \<Rightarrow> [] | c # s' \<Rightarrow> if c = 0x3A then ms r db (Some c, s', g) else [])"
  by (simp add: ms.simps(2) ms_colon split: list.splits)

text \<open>The optional second: a colon and two digits, or nothing.\<close>

lemma first_match_second:
  "first_match (ms (Rep 0 (Some (Suc 0)) (Seq (One [Lit 0x3A]) (Grp 3 (Rep 2 (Some 2) (One [Digit])))))
                 db (p, s, g)) =
     Some (case s of [] \<Rightarrow> g
           | c # s4 \<Rightarrow> if c = 0x3A \<and> length (digit_run db 2 s4) = 2 then g(3 \<mapsto> take 2 s4) else g)"
  by (simp add: ms.simps(4) ms_colon_then ms_Grp_exact split: list.splits)

lemma first_match_minute:
  "first_match (ms (Seq (Grp 2 (Rep 2 (Some 2) (One [Digit])))
                     (Rep 0 (Some (Suc 0)) (Seq (One [Lit 0x3A]) (Grp 3 (Rep 2 (Some 2) (One [Digit]))))))
                 db (p, s, g)) =
     (if length (digit_run db 2 s) = 2
      then Some (case drop 2 s of [] \<Rightarrow> g(2 \<mapsto> take 2 s)
                 | c # s4 \<Rightarrow>
                     if c = 0x3A \<and> length (digit_run db 2 s4) = 2
                     then g(2 \<mapsto> take 2 s, 3 \<mapsto> take 2 s4) else g(2 \<mapsto> take 2 s))
      else None)"
proof -
  have "ms (Seq (Grp 2 (Rep 2 (Some 2) (One [Digit])))
             (Rep 0 (Some (Suc 0)) (Seq (One [Lit 0x3A]) (Grp 3 (Rep 2 (Some 2) (One [Digit]))))))
          db (p, s, g) =
        (if length (digit_run db 2 s) = 2
         then ms (Rep 0 (Some (Suc 0)) (Seq (One [Lit 0x3A]) (Grp 3 (Rep 2 (Some 2) (One [Digit])))))
                db (after p (take 2 s), drop 2 s, g(2 \<mapsto> take 2 s))
         else [])"
    unfolding ms.simps(2)[of "Grp 2 (Rep 2 (Some 2) (One [Digit]))"] ms_Grp_exact by simp
  then show ?thesis
    by (simp add: first_match_second)
qed

lemma first_match_time:
  assumes "punctuation_not_decimal db"
  shows "first_match (ms time_patt db (p, s, Map.empty)) = map_option time_groups (time_at db s)"
proof -
  let ?rest = "Seq (One [Lit 0x3A]) (Seq (Grp 2 (Rep 2 (Some 2) (One [Digit])))
                (Rep 0 (Some (Suc 0)) (Seq (One [Lit 0x3A]) (Grp 3 (Rep 2 (Some 2) (One [Digit]))))))"
  have tp: "time_patt = Seq (Grp 1 (Rep (Suc 0) (Some 2) (One [Digit]))) ?rest"
    by (simp add: time_patt_def)
  have step: "ms time_patt db (p, s, Map.empty) =
        (if digit_run db 2 s = [] then []
         else ms ?rest db (Some (last (digit_run db 2 s)), drop (length (digit_run db 2 s)) s,
                           [1 \<mapsto> digit_run db 2 s]))"
  proof (cases "length (digit_run db 2 s) = 2")
    case True
    from digit_run_2_next[OF True] obtain a b r where
      s: "s = a # b # r" "is_decimal db a" "is_decimal db b" "digit_run db 2 s = [a, b]"
      by blast
    have "b \<noteq> 0x3A"
      using decimal_not_sep[OF assms s(3)] by simp
    then have "ms ?rest db (Some a, b # r, [1 \<mapsto> [a]]) = []"
      by (simp add: ms_colon_then)
    then show ?thesis
      unfolding tp ms.simps(2)[of "Grp 1 (Rep (Suc 0) (Some 2) (One [Digit]))"] ms_Grp_run
      using s by simp
  next
    case False
    then show ?thesis
      unfolding tp ms.simps(2)[of "Grp 1 (Rep (Suc 0) (Some 2) (One [Digit]))"] ms_Grp_run
      by simp
  qed
  show ?thesis
  proof (cases "digit_run db 2 s = []")
    case True
    with step show ?thesis by (simp add: time_at_def)
  next
    case False
    show ?thesis
    proof (cases "drop (length (digit_run db 2 s)) s")
      case Nil
      with False step show ?thesis
        by (simp add: time_at_def ms_colon_then)
    next
      case (Cons c s2)
      with False step show ?thesis
        by (cases "drop 2 s2")
           (simp_all add: time_at_def ms_colon_then first_match_minute time_groups_def)
    qed
  qed
qed

lemma search_first_at:
  assumes "\<And>p s. first_match (ms r db (p, s, Map.empty)) = F s"
  shows "re_search r db s = first_at F s"
proof -
  have "map_option (\<lambda>m. snd (snd m)) (search r db p s) = first_at F s" for p
  proof (induction s arbitrary: p)
    case Nil
    from assms[of p "[]"] show ?case
      by (cases "ms r db (p, [], Map.empty)") simp_all
  next
    case (Cons c cs)
    show ?case
    proof (cases "ms r db (p, c # cs, Map.empty)")
      case Nil
      with assms[of p "c # cs", symmetric] have "F (c # cs) = None" by simp
      with Nil Cons[of "Some c"] show ?thesis by simp
    next
      case (Cons m rest)
      with assms[of p "c # cs", symmetric] have "F (c # cs) = Some (snd (snd m))" by simp
      with Cons show ?thesis by simp
    qed
  qed
  then show ?thesis by (simp add: re_search_def)
qed

lemma first_at_map_option:
  "first_at (\<lambda>s. map_option h (F s)) s = map_option h (first_at F s)"
  by (induction s) (auto split: option.splits)

lemma first_at_Some: "first_at F s = Some r \<Longrightarrow> \<exists>pre suf. s = pre @ suf \<and> F suf = Some r"
proof (induction s)
  case Nil
  then show ?case by simp
next
  case (Cons c cs)
  show ?case
  proof (cases "F (c # cs)")
    case None
    with Cons.prems have "first_at F cs = Some r" by simp
    from Cons.IH[OF this] obtain pre suf where "cs = pre @ suf" "F suf = Some r" by blast
    then have "c # cs = (c # pre) @ suf \<and> F suf = Some r" by simp
    then show ?thesis by blast
  next
    case (Some a)
    with Cons.prems have "c # cs = [] @ (c # cs) \<and> F (c # cs) = Some r" by simp
    then show ?thesis by blast
  qed
qed

lemma re_search_date:
  assumes "punctuation_not_decimal db"
  shows "re_search (Seq (Grp 1 (Rep n (Some n) (One [Digit]))) date_tail) db s =
           map_option date_groups (first_at (date_at db n) s)"
proof -
  have "re_search (Seq (Grp 1 (Rep n (Some n) (One [Digit]))) date_tail) db s =
        first_at (\<lambda>s. map_option date_groups (date_at db n s)) s"
    by (rule search_first_at) (rule first_match_date[OF assms])
  then show ?thesis by (simp add: first_at_map_option)
qed

lemma re_search_time:
  assumes "punctuation_not_decimal db"
  shows "re_search time_patt db s = map_option time_groups (first_at (time_at db) s)"
proof -
  have "re_search time_patt db s = first_at (\<lambda>s. map_option time_groups (time_at db s)) s"
    by (rule search_first_at) (rule first_match_time[OF assms])
  then show ?thesis by (simp add: first_at_map_option)
qed



lemma py_int_group:
  "s \<noteq> [] \<Longrightarrow> list_all (is_decimal db) s \<Longrightarrow> length s \<le> 4 \<Longrightarrow>
   py_int db s = Inr (int_value db s)"
  by (rule py_int_digit_string) (simp_all add: short_not_too_many)

lemma date_at_shape:
  assumes "date_at db n suf = Some (y, m, d)"
  shows "length y = n \<and> list_all (is_decimal db) y \<and> m \<noteq> [] \<and> list_all (is_decimal db) m \<and>
         d \<noteq> [] \<and> list_all (is_decimal db) d \<and> length m \<le> 2 \<and> length d \<le> 2"
proof -
  from assms have full: "length (digit_run db n suf) = n" and y: "y = take n suf"
    and tail: "date_tail_at db (drop n suf) = Some (m, d)"
    by (auto simp: date_at_def split: if_splits)
  from digit_run_full[OF full] y have "y = digit_run db n suf" by simp
  with full digit_run_digits[of db n suf] have "length y = n" "list_all (is_decimal db) y"
    by simp_all
  moreover from tail obtain s2 s4 where "m = digit_run db 2 s2" "m \<noteq> []"
    "d = digit_run db 2 s4" "d \<noteq> []"
    by (auto simp: date_tail_at_def split: list.splits if_splits)
  ultimately show ?thesis
    using digit_run_digits digit_run_length by simp
qed

lemma time_at_shape:
  assumes "time_at db suf = Some (h, mi, ss)"
  shows "h \<noteq> [] \<and> list_all (is_decimal db) h \<and> length mi = 2 \<and> list_all (is_decimal db) mi \<and>
         (case ss of None \<Rightarrow> True | Some x \<Rightarrow> length x = 2 \<and> list_all (is_decimal db) x) \<and>
         length h \<le> 2"
proof -
  from assms have ne: "digit_run db 2 suf \<noteq> []"
    by (auto simp: time_at_def split: if_splits)
  with assms obtain c s2 where d: "drop (length (digit_run db 2 suf)) suf = c # s2"
    by (cases "drop (length (digit_run db 2 suf)) suf") (auto simp: time_at_def)
  from assms ne d have m2: "length (digit_run db 2 s2) = 2"
    by (auto simp: time_at_def split: if_splits)
  from assms ne d m2 have h: "h = digit_run db 2 suf" and mi: "mi = take 2 s2"
    and ss: "ss = (case drop 2 s2 of [] \<Rightarrow> None
                   | c' # s4 \<Rightarrow> if c' = 0x3A \<and> length (digit_run db 2 s4) = 2
                                then Some (take 2 s4) else None)"
    by (simp_all add: time_at_def split: if_splits)
  from digit_run_full[OF m2] mi m2 have mi': "mi = digit_run db 2 s2" "length mi = 2"
    by simp_all
  have "length x = 2 \<and> list_all (is_decimal db) x" if "ss = Some x" for x
  proof (cases "drop 2 s2")
    case Nil
    with ss that show ?thesis by simp
  next
    case (Cons c' s4)
    with ss that have "length (digit_run db 2 s4) = 2" "x = take 2 s4"
      by (simp_all split: if_splits)
    with digit_run_full[OF this(1)] digit_run_digits[of db 2 s4] show ?thesis by simp
  qed
  then have "case ss of None \<Rightarrow> True | Some x \<Rightarrow> length x = 2 \<and> list_all (is_decimal db) x"
    by (cases ss) simp_all
  with h ne mi' digit_run_digits digit_run_length show ?thesis by simp
qed

lemma date_loop_step:
  assumes "length y = n" "0 < n" "list_all (is_decimal db) y" "m \<noteq> []" "list_all (is_decimal db) m"
    "d \<noteq> []" "list_all (is_decimal db) d"
    and "n \<le> 4" "length m \<le> 2" "length d \<le> 2"
    and "re_search dp db txt = Some g" "g 1 = Some y" "g 2 = Some m" "g 3 = Some d"
  shows "date_loop db txt (dp # dps) =
           Inr (Some ((if n = 4 then 0 else 2000) + int_value db y, int_value db m, int_value db d))"
proof -
  from assms(1,2) have "y \<noteq> []" by auto
  with assms show ?thesis
    by (simp add: int_group_def py_int_group)
qed

lemma date_loop_refines:
  assumes "punctuation_not_decimal db"
  shows "date_loop db txt date_patts = Inr (date_found db txt)"
proof (cases "first_at (date_at db 4) txt")
  case (Some t)
  obtain y m d where t: "t = (y, m, d)" by (cases t)
  from first_at_Some[OF Some] t obtain suf where "date_at db 4 suf = Some (y, m, d)" by blast
  from date_at_shape[OF this] have sh: "length y = 4" "list_all (is_decimal db) y" "m \<noteq> []"
    "list_all (is_decimal db) m" "d \<noteq> []" "list_all (is_decimal db) d"
    "length m \<le> 2" "length d \<le> 2"
    by simp_all
  have "re_search (Seq (Grp 1 (Rep 4 (Some 4) (One [Digit]))) date_tail) db txt
          = Some (date_groups (y, m, d))"
    using re_search_date[OF assms, of 4 "txt"] Some t by simp
  from date_loop_step[OF sh(1) _ sh(2-6) _ sh(7,8) this, of "[Seq (Grp 1 (Rep 2 (Some 2) (One [Digit]))) date_tail]"]
  show ?thesis
    by (simp add: date_patts_def date_groups_def date_found_def Some t)
next
  case None
  then have none4: "re_search (Seq (Grp 1 (Rep 4 (Some 4) (One [Digit]))) date_tail) db txt = None"
    using re_search_date[OF assms, of 4 "txt"] by simp
  show ?thesis
  proof (cases "first_at (date_at db 2) txt")
    case (Some t)
    obtain y m d where t: "t = (y, m, d)" by (cases t)
    from first_at_Some[OF Some] t obtain suf where "date_at db 2 suf = Some (y, m, d)" by blast
    from date_at_shape[OF this] have sh: "length y = 2" "list_all (is_decimal db) y" "m \<noteq> []"
      "list_all (is_decimal db) m" "d \<noteq> []" "list_all (is_decimal db) d"
      "length m \<le> 2" "length d \<le> 2"
      by simp_all
    have "re_search (Seq (Grp 1 (Rep 2 (Some 2) (One [Digit]))) date_tail) db txt
            = Some (date_groups (y, m, d))"
      using re_search_date[OF assms, of 2 "txt"] Some t by simp
    from date_loop_step[OF sh(1) _ sh(2-6) _ sh(7,8) this, of "[]"]
    show ?thesis
      using none4 by (simp add: date_patts_def date_groups_def date_found_def Some \<open>first_at (date_at db 4) txt = None\<close> t)
  next
    case None2: None
    then have "re_search (Seq (Grp 1 (Rep 2 (Some 2) (One [Digit]))) date_tail) db txt = None"
      using re_search_date[OF assms, of 2 "txt"] by simp
    with none4 show ?thesis
      by (simp add: date_patts_def date_found_def None None2)
  qed
qed

lemma time_part_refines:
  assumes "punctuation_not_decimal db"
  shows "time_part db txt = Inr (time_found db txt)"
proof (cases "first_at (time_at db) txt")
  case None
  then have "re_search time_patt db txt = None"
    using re_search_time[OF assms, of "txt"] by simp
  with None show ?thesis
    by (simp add: time_part_def time_found_def)
next
  case (Some t)
  obtain h mi ss where t: "t = (h, mi, ss)" by (cases t)
  from first_at_Some[OF Some] t obtain suf where "time_at db suf = Some (h, mi, ss)" by blast
  from time_at_shape[OF this] have sh: "h \<noteq> []" "list_all (is_decimal db) h" "mi \<noteq> []"
    "list_all (is_decimal db) mi"
    "case ss of None \<Rightarrow> True | Some x \<Rightarrow> x \<noteq> [] \<and> list_all (is_decimal db) x \<and> length x \<le> 4"
    "length h \<le> 4" "length mi \<le> 4"
    by (auto split: option.splits)
  have "re_search time_patt db txt = Some (time_groups (h, mi, ss))"
    using re_search_time[OF assms, of "txt"] Some t by simp
  with sh show ?thesis
    by (cases ss)
       (simp_all add: time_part_def time_found_def Some t time_groups_def int_group_def
          py_int_group)
qed

lemma datetime_new_result:
  "datetime_new y m d hh mi ss =
     (if valid_date y m d \<and> 0 \<le> hh \<and> hh \<le> 23 \<and> 0 \<le> mi \<and> mi \<le> 59 \<and> 0 \<le> ss \<and> ss \<le> 59
      then Inr \<lparr>year = y, month = m, day = d, hour = hh, minute = mi, second = ss\<rparr>
      else Inl ValueError)"
  by (simp add: datetime_new_def valid_date_def)

lemma guess_datetime_combine:
  assumes "date_loop db txt date_patts = Inr ymd" "time_part db txt = Inr (hh, mi, ss)"
  shows "guess_datetime db txt =
     Inr (case ymd of None \<Rightarrow> None
          | Some (yy, mm, dd) \<Rightarrow>
              (case datetime_new yy mm dd hh mi ss of Inl e \<Rightarrow> None | Inr d \<Rightarrow> Some d))"
proof (cases ymd)
  case None
  with assms show ?thesis by (simp add: guess_datetime_def)
next
  case (Some t)
  obtain yy mm dd where t: "t = (yy, mm, dd)" by (cases t)
  have zero: "\<not> valid_date yy mm dd" if "yy = 0 \<or> mm = 0 \<or> dd = 0"
    using that by (auto simp: valid_date_def)
  show ?thesis
    using assms Some t zero
    by (auto simp: guess_datetime_def datetime_new_result)
qed

lemma guess_datetime_refines:
  assumes "punctuation_not_decimal db"
  shows "guess_datetime db txt = Inr (guess_datetime_spec db txt)"
proof -
  obtain hh mi ss where tf: "time_found db txt = (hh, mi, ss)" by (cases "time_found db txt")
  have tp: "time_part db txt = Inr (hh, mi, ss)"
    using time_part_refines[OF assms, of "txt"] tf by simp
  from guess_datetime_combine[OF date_loop_refines[OF assms] tp]
  show ?thesis
    by (simp add: guess_datetime_spec_def tf split: option.splits)
qed



lemma seq_grp_value:
  assumes "(p', s', g') \<in> set (ms (Seq (Grp k a) b) db (p, s, g))" "k \<notin> grps b"
  shows "\<exists>w. w \<in> lang db a \<and> g' k = Some w"
proof -
  from ms_Seq_E[OF assms(1)] obtain p1 s1 g1 where
    m1: "(p1, s1, g1) \<in> set (ms (Grp k a) db (p, s, g))" and
    m2: "(p', s', g') \<in> set (ms b db (p1, s1, g1))"
    by blast
  from ms_Grp_sets[OF m1] obtain w where "w \<in> lang db a" "g1 k = Some w" by blast
  with ms_groups_other[OF m2 assms(2)] show ?thesis by simp
qed

lemma seq_tail:
  assumes "(p', s', g') \<in> set (ms (Seq a b) db (p, s, g))"
  shows "\<exists>p1 s1 g1. (p', s', g') \<in> set (ms b db (p1, s1, g1)) \<and> (\<forall>k. k \<notin> grps a \<longrightarrow> g1 k = g k)"
proof -
  from ms_Seq_E[OF assms] obtain p1 s1 g1 where
    m1: "(p1, s1, g1) \<in> set (ms a db (p, s, g))" and
    m2: "(p', s', g') \<in> set (ms b db (p1, s1, g1))"
    by blast
  from ms_groups_other[OF m1] m2 show ?thesis by blast
qed

lemma digits_shape:
  assumes "w \<in> lang db (Rep lo (Some hi) (One [Digit]))" "0 < lo"
  shows "w \<noteq> [] \<and> lo \<le> length w \<and> length w \<le> hi \<and> list_all (is_decimal db) w"
  using lang_digits[OF assms(1)] assms(2) by auto

lemma date_match_groups:
  assumes "(p', s', g') \<in> set (ms (Seq (Grp 1 (Rep n (Some n) (One [Digit]))) date_tail) db (p, s, g))"
    and "0 < n"
  shows "\<exists>y m d. g' 1 = Some y \<and> g' 2 = Some m \<and> g' 3 = Some d \<and>
           length y = n \<and> list_all (is_decimal db) y \<and>
           m \<noteq> [] \<and> list_all (is_decimal db) m \<and> d \<noteq> [] \<and> list_all (is_decimal db) d \<and>
           length m \<le> 2 \<and> length d \<le> 2"
proof -
  let ?G2 = "Grp 2 (Rep 1 (Some 2) (One [Digit]))"
  let ?G3 = "Grp 3 (Rep 1 (Some 2) (One [Digit]))"
  have "1 \<notin> grps date_tail"
    by (simp add: date_tail_def date_sep_def)
  from seq_grp_value[OF assms(1) this] obtain y where
    y: "y \<in> lang db (Rep n (Some n) (One [Digit]))" "g' 1 = Some y"
    by blast
  from seq_tail[OF assms(1)] obtain p1 s1 g1 where
    "(p', s', g') \<in> set (ms date_tail db (p1, s1, g1))"
    by blast
  then have "(p', s', g') \<in> set (ms (Seq date_sep (Seq ?G2 (Seq date_sep ?G3))) db (p1, s1, g1))"
    by (simp only: date_tail_def)
  from seq_tail[OF this] obtain p2 s2 g2 where
    t2: "(p', s', g') \<in> set (ms (Seq ?G2 (Seq date_sep ?G3)) db (p2, s2, g2))"
    by blast
  have "2 \<notin> grps (Seq date_sep ?G3)"
    by (simp add: date_sep_def)
  from seq_grp_value[OF t2 this] obtain m where
    m: "m \<in> lang db (Rep 1 (Some 2) (One [Digit]))" "g' 2 = Some m"
    by blast
  from seq_tail[OF t2] obtain p3 s3 g3 where
    "(p', s', g') \<in> set (ms (Seq date_sep ?G3) db (p3, s3, g3))"
    by blast
  from seq_tail[OF this] obtain p4 s4 g4 where
    "(p', s', g') \<in> set (ms ?G3 db (p4, s4, g4))"
    by blast
  from ms_Grp_sets[OF this] obtain d where
    d: "d \<in> lang db (Rep 1 (Some 2) (One [Digit]))" "g' 3 = Some d"
    by blast
  from digits_shape[OF y(1) assms(2)] digits_shape[OF m(1)] digits_shape[OF d(1)] y(2) m(2) d(2)
  show ?thesis by simp
qed

lemma rep_0_1:
  "st' \<in> set (rep f 0 1 st) \<longleftrightarrow> st' \<in> set (f st) \<or> st' = st"
  by auto

lemma time_match_groups:
  assumes "(p', s', g') \<in> set (ms time_patt db (p, s, g))" "g 3 = None"
  shows "\<exists>h mi. g' 1 = Some h \<and> g' 2 = Some mi \<and>
           h \<noteq> [] \<and> list_all (is_decimal db) h \<and> mi \<noteq> [] \<and> list_all (is_decimal db) mi \<and>
           length h \<le> 2 \<and> length mi \<le> 2 \<and>
           (g' 3 = None \<or>
            (\<exists>x. g' 3 = Some x \<and> x \<noteq> [] \<and> list_all (is_decimal db) x \<and> length x \<le> 2))"
proof -
  let ?G1 = "Grp 1 (Rep 1 (Some 2) (One [Digit]))"
  let ?G2 = "Grp 2 (Rep 2 (Some 2) (One [Digit]))"
  let ?G3 = "Grp 3 (Rep 2 (Some 2) (One [Digit]))"
  let ?U3 = "Rep 0 (Some 1) (Seq (One [Lit 0x3A]) ?G3)"
  let ?U1 = "Seq (One [Lit 0x3A]) (Seq ?G2 ?U3)"
  from assms(1) have t0: "(p', s', g') \<in> set (ms (Seq ?G1 ?U1) db (p, s, g))"
    by (simp only: time_patt_def)
  have "1 \<notin> grps ?U1" by simp
  from seq_grp_value[OF t0 this] obtain h where
    h: "h \<in> lang db (Rep 1 (Some 2) (One [Digit]))" "g' 1 = Some h"
    by blast
  from seq_tail[OF t0] assms(2) obtain p1 s1 g1 where
    t1: "(p', s', g') \<in> set (ms ?U1 db (p1, s1, g1))" and g1: "g1 3 = None"
    by fastforce
  from seq_tail[OF t1] g1 obtain p2 s2 g2 where
    t2: "(p', s', g') \<in> set (ms (Seq ?G2 ?U3) db (p2, s2, g2))" and g2: "g2 3 = None"
    by fastforce
  have "2 \<notin> grps ?U3" by simp
  from seq_grp_value[OF t2 this] obtain mi where
    mi: "mi \<in> lang db (Rep 2 (Some 2) (One [Digit]))" "g' 2 = Some mi"
    by blast
  from seq_tail[OF t2] g2 obtain p3 s3 g3 where
    t3: "(p', s', g') \<in> set (ms ?U3 db (p3, s3, g3))" and g3: "g3 3 = None"
    by fastforce
  from t3 have "(p', s', g') \<in> set (ms (Seq (One [Lit 0x3A]) ?G3) db (p3, s3, g3)) \<or>
                (p', s', g') = (p3, s3, g3)"
    by (simp only: ms.simps(4) option.case rep_0_1)
  then have "g' 3 = None \<or>
      (\<exists>x. g' 3 = Some x \<and> x \<noteq> [] \<and> list_all (is_decimal db) x \<and> length x \<le> 2)"
  proof
    assume "(p', s', g') \<in> set (ms (Seq (One [Lit 0x3A]) ?G3) db (p3, s3, g3))"
    from seq_tail[OF this] obtain p4 s4 g4 where
      "(p', s', g') \<in> set (ms ?G3 db (p4, s4, g4))"
      by blast
    from ms_Grp_sets[OF this] obtain x where
      "x \<in> lang db (Rep 2 (Some 2) (One [Digit]))" "g' 3 = Some x"
      by blast
    with digits_shape[OF this(1)] show ?thesis by simp
  next
    assume "(p', s', g') = (p3, s3, g3)"
    with g3 show ?thesis by simp
  qed
  with digits_shape[OF h(1)] digits_shape[OF mi(1)] h(2) mi(2) show ?thesis by simp
qed

lemma re_search_found:
  assumes "re_search r db s = Some g"
  shows "\<exists>p0 s0 p' s'. (p', s', g) \<in> set (ms r db (p0, s0, Map.empty))"
proof -
  from assms obtain m where "search r db None s = Some m" "g = snd (snd m)"
    by (auto simp: re_search_def)
  with search_found[OF this(1)] show ?thesis
    by (cases m) auto
qed

lemma date_loop_found:
  assumes "re_search (Seq (Grp 1 (Rep n (Some n) (One [Digit]))) date_tail) db txt = Some g" "0 < n"
    "n \<le> 4"
  shows "\<exists>y m d. length y = n \<and> g 1 = Some y \<and>
           date_loop db txt (Seq (Grp 1 (Rep n (Some n) (One [Digit]))) date_tail # dps) =
             Inr (Some ((if n = 4 then 0 else 2000) + int_value db y, int_value db m, int_value db d))"
proof -
  from re_search_found[OF assms(1)] obtain p0 s0 p' s' where
    "(p', s', g) \<in> set (ms (Seq (Grp 1 (Rep n (Some n) (One [Digit]))) date_tail) db (p0, s0, Map.empty))"
    by blast
  from date_match_groups[OF this assms(2)] obtain y m d where
    g: "g 1 = Some y" "g 2 = Some m" "g 3 = Some d" and
    sh: "length y = n" "list_all (is_decimal db) y" "m \<noteq> []" "list_all (is_decimal db) m"
      "d \<noteq> []" "list_all (is_decimal db) d" "length m \<le> 2" "length d \<le> 2"
    by blast
  from date_loop_step[OF sh(1) assms(2) sh(2-6) assms(3) sh(7,8) assms(1) g] sh(1) g(1)
  show ?thesis by blast
qed

lemma date_loop_total: "\<exists>ymd. date_loop db txt date_patts = Inr ymd"
proof (cases "re_search (Seq (Grp 1 (Rep 4 (Some 4) (One [Digit]))) date_tail) db txt")
  case (Some g)
  from date_loop_found[OF Some] show ?thesis
    unfolding date_patts_def by auto
next
  case None
  show ?thesis
  proof (cases "re_search (Seq (Grp 1 (Rep 2 (Some 2) (One [Digit]))) date_tail) db txt")
    case (Some g)
    from date_loop_found[OF Some, of "[]"] None show ?thesis
      unfolding date_patts_def by auto
  next
    case None2: None
    with None show ?thesis
      unfolding date_patts_def by simp
  qed
qed

lemma time_part_total: "\<exists>hh mi ss. time_part db txt = Inr (hh, mi, ss)"
proof (cases "re_search time_patt db txt")
  case None
  then show ?thesis by (simp add: time_part_def)
next
  case (Some g)
  from re_search_found[OF Some] obtain p0 s0 p' s' where
    "(p', s', g) \<in> set (ms time_patt db (p0, s0, Map.empty))"
    by blast
  from time_match_groups[OF this] obtain h mi where
    "g 1 = Some h" "g 2 = Some mi" "h \<noteq> []" "list_all (is_decimal db) h" "mi \<noteq> []"
    "list_all (is_decimal db) mi" "length h \<le> 4" "length mi \<le> 4"
    "g 3 = None \<or> (\<exists>x. g 3 = Some x \<and> x \<noteq> [] \<and> list_all (is_decimal db) x \<and> length x \<le> 4)"
    by fastforce
  with Some show ?thesis
    by (auto simp: time_part_def int_group_def py_int_group)
qed

lemma guess_datetime_total: "\<exists>r. guess_datetime db txt = Inr r"
proof -
  from date_loop_total obtain ymd where "date_loop db txt date_patts = Inr ymd" by blast
  moreover from time_part_total obtain hh mi ss where "time_part db txt = Inr (hh, mi, ss)"
    by blast
  ultimately show ?thesis
    using guess_datetime_combine by blast
qed

text \<open>
  C4. Provided the date separators and the colon are not decimal digits,
  \<open>guess_datetime\<close> returns what the description in words prescribes: the leftmost date
  with a four-digit year, or, when the text has none, the leftmost date with a two-digit
  year read as 2000 plus that year; independently the leftmost time, or 0:00:00 when the
  text has none; and the timestamp they form. The payment line of the example gives
  2025-11-13 14:05:30, and \<open>25.3.2 13:00\<close> gives 2025-03-02 13:00:00.
\<close>

theorem guess_datetime_leftmost_date_and_time:
  assumes "punctuation_not_decimal db"
  shows "guess_datetime db txt = Inr (guess_datetime_spec db txt) \<and>
         guess_datetime basic_db payment_line =
           Inr (Some \<lparr>year = 2025, month = 11, day = 13, hour = 14, minute = 5, second = 30\<rparr>) \<and>
         guess_datetime basic_db (cp ''25.3.2 13:00'') =
           Inr (Some \<lparr>year = 2025, month = 3, day = 2, hour = 13, minute = 0, second = 0\<rparr>)"
proof (intro conjI)
  show "guess_datetime db txt = Inr (guess_datetime_spec db txt)"
    by (rule guess_datetime_refines[OF assms])
  show "guess_datetime basic_db payment_line =
          Inr (Some \<lparr>year = 2025, month = 11, day = 13, hour = 14, minute = 5, second = 30\<rparr>)"
    by code_simp
  show "guess_datetime basic_db (cp ''25.3.2 13:00'') =
          Inr (Some \<lparr>year = 2025, month = 3, day = 2, hour = 13, minute = 0, second = 0\<rparr>)"
    by code_simp
qed

theorem guess_datetime_leftmost_date_and_time_witness:
  "guess_datetime_spec basic_db two_dates_line =
     Some \<lparr>year = 2024, month = 2, day = 29, hour = 9, minute = 5, second = 0\<rparr> \<and>
   guess_datetime basic_db two_dates_line =
     Inr (Some \<lparr>year = 2024, month = 2, day = 29, hour = 9, minute = 5, second = 0\<rparr>)"
proof -
  have tables: "punctuation_not_decimal basic_db"
    by (simp add: punctuation_not_decimal_def is_decimal_def basic_db_def)
  have spec: "guess_datetime_spec basic_db two_dates_line =
      Some \<lparr>year = 2024, month = 2, day = 29, hour = 9, minute = 5, second = 0\<rparr>"
    by code_simp
  from guess_datetime_leftmost_date_and_time[OF tables, of two_dates_line] spec
  show ?thesis by simp
qed

text \<open>
  C5. \<open>guess_datetime\<close> returns \<open>None\<close>, and raises nothing, when neither date pattern
  matches anywhere (whatever the time pattern finds), and when the year, month and day
  that the date loop read are not a date of the calendar. The date loop itself never
  raises. On \<open>2025-13-40\<close> it reads (2025, 13, 40) and the result is \<open>None\<close>.
\<close>

theorem guess_datetime_without_valid_date:
  "(re_search (date_patts ! 0) db txt = None \<and> re_search (date_patts ! 1) db txt = None \<longrightarrow>
      guess_datetime db txt = Inr None) \<and>
   (\<forall>yy mm dd. date_loop db txt date_patts = Inr (Some (yy, mm, dd)) \<and> \<not> valid_date yy mm dd \<longrightarrow>
      guess_datetime db txt = Inr None) \<and>
   (\<exists>ymd. date_loop db txt date_patts = Inr ymd) \<and>
   date_loop basic_db (cp ''2025-13-40'') date_patts = Inr (Some (2025, 13, 40)) \<and>
   guess_datetime basic_db (cp ''2025-13-40'') = Inr None"
proof (intro conjI impI allI)
  assume "re_search (date_patts ! 0) db txt = None \<and> re_search (date_patts ! 1) db txt = None"
  then have "date_loop db txt date_patts = Inr None"
    by (simp add: date_patts_def)
  moreover from time_part_total obtain hh mi ss where "time_part db txt = Inr (hh, mi, ss)"
    by blast
  ultimately show "guess_datetime db txt = Inr None"
    using guess_datetime_combine by fastforce
next
  fix yy mm dd
  assume a: "date_loop db txt date_patts = Inr (Some (yy, mm, dd)) \<and> \<not> valid_date yy mm dd"
  from time_part_total obtain hh mi ss where "time_part db txt = Inr (hh, mi, ss)"
    by blast
  from guess_datetime_combine[OF a[THEN conjunct1] this] a
  show "guess_datetime db txt = Inr None"
    by (simp add: datetime_new_result)
next
  show "\<exists>ymd. date_loop db txt date_patts = Inr ymd"
    by (rule date_loop_total)
next
  show "date_loop basic_db (cp ''2025-13-40'') date_patts = Inr (Some (2025, 13, 40))"
    by code_simp
next
  show "guess_datetime basic_db (cp ''2025-13-40'') = Inr None"
    by code_simp
qed

theorem guess_datetime_without_valid_date_witness:
  "time_part basic_db (cp ''at 10:30'') = Inr (10, 30, 0) \<and>
   guess_datetime basic_db (cp ''at 10:30'') = Inr None \<and>
   date_loop basic_db (cp ''2023-02-29 10:30'') date_patts = Inr (Some (2023, 2, 29)) \<and>
   guess_datetime basic_db (cp ''2023-02-29 10:30'') = Inr None"
proof -
  have "map_option (\<lambda>g. g 1) (re_search (date_patts ! 0) basic_db (cp ''at 10:30'')) = None"
    "map_option (\<lambda>g. g 1) (re_search (date_patts ! 1) basic_db (cp ''at 10:30'')) = None"
    by code_simp+
  then have none: "re_search (date_patts ! 0) basic_db (cp ''at 10:30'') = None \<and>
                   re_search (date_patts ! 1) basic_db (cp ''at 10:30'') = None"
    by simp
  have t: "time_part basic_db (cp ''at 10:30'') = Inr (10, 30, 0)"
    by code_simp
  have d: "date_loop basic_db (cp ''2023-02-29 10:30'') date_patts = Inr (Some (2023, 2, 29))"
    by code_simp
  have v: "\<not> valid_date 2023 2 29"
    by code_simp
  from guess_datetime_without_valid_date[of basic_db "cp ''at 10:30''"] none
  have "guess_datetime basic_db (cp ''at 10:30'') = Inr None"
    by blast
  moreover from guess_datetime_without_valid_date[of basic_db "cp ''2023-02-29 10:30''"] d v
  have "guess_datetime basic_db (cp ''2023-02-29 10:30'') = Inr None"
    by blast
  ultimately show ?thesis
    using t d by simp
qed

text \<open>
  C10. \<open>guess_datetime\<close> always returns: no call of \<open>int\<close> raises, and the error of the
  constructor is caught. When the time that was read has an hour above 23, a minute above
  59 or a second above 59, the result is \<open>None\<close>, whatever the date: on
  \<open>2025-11-13 24:10\<close> the date read is the valid date (2025, 11, 13), the time read is
  (24, 10, 0), and the result is \<open>None\<close>.
\<close>

theorem guess_datetime_total_and_strict_on_time:
  "(\<exists>r. guess_datetime db txt = Inr r) \<and>
   (\<forall>hh mi ss. time_part db txt = Inr (hh, mi, ss) \<and> (23 < hh \<or> 59 < mi \<or> 59 < ss) \<longrightarrow>
      guess_datetime db txt = Inr None) \<and>
   date_loop basic_db (cp ''2025-11-13 24:10'') date_patts = Inr (Some (2025, 11, 13)) \<and>
   valid_date 2025 11 13 \<and>
   time_part basic_db (cp ''2025-11-13 24:10'') = Inr (24, 10, 0) \<and>
   guess_datetime basic_db (cp ''2025-11-13 24:10'') = Inr None"
proof (intro conjI impI allI)
  show "\<exists>r. guess_datetime db txt = Inr r"
    by (rule guess_datetime_total)
next
  fix hh mi ss
  assume a: "time_part db txt = Inr (hh, mi, ss) \<and> (23 < hh \<or> 59 < mi \<or> 59 < ss)"
  from date_loop_total obtain ymd where "date_loop db txt date_patts = Inr ymd"
    by blast
  from guess_datetime_combine[OF this a[THEN conjunct1]] a
  show "guess_datetime db txt = Inr None"
    by (auto simp: datetime_new_result split: option.splits)
next
  show "date_loop basic_db (cp ''2025-11-13 24:10'') date_patts = Inr (Some (2025, 11, 13))"
    by code_simp
next
  show "valid_date 2025 11 13"
    by code_simp
next
  show "time_part basic_db (cp ''2025-11-13 24:10'') = Inr (24, 10, 0)"
    by code_simp
next
  show "guess_datetime basic_db (cp ''2025-11-13 24:10'') = Inr None"
    by code_simp
qed

theorem guess_datetime_total_and_strict_on_time_witness:
  "time_part basic_db (cp ''2025-11-13 12:60'') = Inr (12, 60, 0) \<and>
   date_loop basic_db (cp ''2025-11-13 12:60'') date_patts = Inr (Some (2025, 11, 13)) \<and>
   guess_datetime basic_db (cp ''2025-11-13 12:60'') = Inr None"
proof -
  have t: "time_part basic_db (cp ''2025-11-13 12:60'') = Inr (12, 60, 0)"
    by code_simp
  have d: "date_loop basic_db (cp ''2025-11-13 12:60'') date_patts = Inr (Some (2025, 11, 13))"
    by code_simp
  from guess_datetime_total_and_strict_on_time[of basic_db "cp ''2025-11-13 12:60''"] t
  have "guess_datetime basic_db (cp ''2025-11-13 12:60'') = Inr None"
    by auto
  with t d show ?thesis by simp
qed

section \<open>Properties of the drafts\<close>

text \<open>
  Handling an attachment returns exactly when the text read from the image is within the
  limit of the conversion; otherwise the handler raises \<open>ValueError\<close> before any draft is
  stored.
\<close>

lemma process_attachment_returns_iff:
  "(\<exists>w1. process_attachment db vendor_patterns pid att data ocr w = Inr w1)
     \<longleftrightarrow> within_int_limit db ocr"
proof (cases "within_int_limit db ocr")
  case True
  with guess_amount_returns_iff[of db ocr] obtain amt where "guess_amount db ocr = Inr amt"
    by blast
  moreover from guess_datetime_total obtain when0 where "guess_datetime db ocr = Inr when0"
    by blast
  ultimately show ?thesis
    using True by (simp add: process_attachment_def Let_def)
next
  case False
  from guess_amount_beyond_limit[OF this] False show ?thesis
    by (simp add: process_attachment_def Let_def)
qed

lemma process_attachment_stores:
  assumes "within_int_limit db ocr"
  shows "\<exists>amt when0.
     guess_amount db ocr = Inr amt \<and> guess_datetime db ocr = Inr when0 \<and>
     process_attachment db vendor_patterns pid att data ocr w =
       Inr (w\<lparr>files := (files w)(path_join (path_join (data_dir w) (cp ''uploads''))
                                   (draft_filename db pid att) \<mapsto> ImageFile data),
              pending := (pending w)(pid \<mapsto>
                \<lparr>p_id = pid, p_filename = draft_filename db pid att,
                 p_category = guess_category db vendor_patterns ocr, p_amount = amt,
                 p_when = when0, p_ocr_text = ocr\<rparr>)\<rparr>)"
proof -
  from guess_amount_returns_iff[of db ocr] assms
  obtain amt where a: "guess_amount db ocr = Inr amt" by blast
  from guess_datetime_total obtain when0 where d: "guess_datetime db ocr = Inr when0" by blast
  from a d show ?thesis
    by (simp add: process_attachment_def Let_def)
qed

lemma on_submit_live:
  assumes "pending w pid = Some p"
  shows "\<exists>w3 row.
           on_submit db strptime pid form w = Inr (w3, SavedCorrected) \<and>
           ledger w3 = ledger w @ [row] \<and> r_id row = p_id p \<and> r_filename row = p_filename p \<and>
           files w3 (r_ocr_text_path row) = Some (TextFile (p_ocr_text p)) \<and>
           pending w3 pid = None"
proof -
  define digits where
    "digits = re_sub_nondigit db (case t_amount form of None \<Rightarrow> [] | Some v \<Rightarrow> amount_chars v)"
  have pi: "digits \<noteq> [] \<Longrightarrow> py_int db digits = Inr (int_value db digits)"
    using form_amount_converts[OF digits_def] .
  show ?thesis
  proof (cases "digits = []")
    case True
    with assms show ?thesis
      by (auto simp: on_submit_def Let_def save_row_fields digits_def[symmetric]
               split: option.splits)
  next
    case False
    with assms pi show ?thesis
      by (auto simp: on_submit_def Let_def save_row_fields digits_def[symmetric]
               split: option.splits)
  qed
qed

lemma confirm_live:
  "pending w pid = Some p \<Longrightarrow>
   confirm pid w = ((save_row p w)\<lparr>pending := (pending w)(pid := None)\<rparr>, Saved)"
  by (simp add: confirm_def save_row_fields)

lemma stale_draft:
  "pending w pid = None \<Longrightarrow>
   confirm pid w = (w, SessionExpired) \<and> on_submit db strptime pid form w = Inr (w, SessionNotFound)"
  by (simp add: confirm_def on_submit_def)

lemma saved_world:
  assumes "w2 = (save_row p w1)\<lparr>pending := (pending w1)(pid := None)\<rparr>"
  shows "\<exists>row. ledger w2 = ledger w1 @ [row] \<and> r_id row = p_id p \<and>
           r_filename row = p_filename p \<and>
           files w2 (r_ocr_text_path row) = Some (TextFile (p_ocr_text p)) \<and>
           pending w2 pid = None"
  using assms by (simp add: save_row_fields)

text \<open>
  C7. Handling an attachment whose text is within the limit of the conversion stores a
  draft under its identifier, and a lookup returns it. A confirmation of the live draft appends exactly one row and writes the sidecar
  text, removes the draft, and is answered with the confirmation; so does a correction.
  After either, the identifier has no draft: a further confirmation is answered with the
  notice that the session has expired and a further correction with the notice that the
  session was not found, and both leave the ledger, the files and the store as they are.
\<close>

theorem draft_lifecycle:
  assumes "within_int_limit db ocr"
  shows "\<exists>w1 p.
     process_attachment db vendor_patterns pid att data ocr w = Inr w1 \<and>
     pending w1 pid = Some p \<and> p_id p = pid \<and> p_ocr_text p = ocr \<and> ledger w1 = ledger w \<and>
     (\<exists>w2 row.
        confirm pid w1 = (w2, Saved) \<and> ledger w2 = ledger w @ [row] \<and> r_id row = pid \<and>
        files w2 (r_ocr_text_path row) = Some (TextFile ocr) \<and> pending w2 pid = None \<and>
        confirm pid w2 = (w2, SessionExpired) \<and>
        on_submit db strptime pid form w2 = Inr (w2, SessionNotFound)) \<and>
     (\<exists>w3 row.
        on_submit db strptime pid form w1 = Inr (w3, SavedCorrected) \<and>
        ledger w3 = ledger w @ [row] \<and> r_id row = pid \<and>
        files w3 (r_ocr_text_path row) = Some (TextFile ocr) \<and> pending w3 pid = None \<and>
        confirm pid w3 = (w3, SessionExpired) \<and>
        on_submit db strptime pid form' w3 = Inr (w3, SessionNotFound))"
proof -
  from process_attachment_stores[OF assms, of vendor_patterns pid att data w]
  obtain w1 p where
    w1: "process_attachment db vendor_patterns pid att data ocr w = Inr w1" and
    p: "pending w1 pid = Some p" "p_id p = pid" "p_ocr_text p = ocr" and
    l: "ledger w1 = ledger w"
    by auto
  define w2 where "w2 = (save_row p w1)\<lparr>pending := (pending w1)(pid := None)\<rparr>"
  from saved_world[OF w2_def] p l obtain row2 where
    r2: "ledger w2 = ledger w @ [row2]" "r_id row2 = pid"
    "files w2 (r_ocr_text_path row2) = Some (TextFile ocr)" "pending w2 pid = None"
    by auto
  have c2: "confirm pid w1 = (w2, Saved)"
    using confirm_live[OF p(1)] by (simp add: w2_def)
  from on_submit_live[OF p(1), of db strptime form] p l obtain w3 row3 where
    s3: "on_submit db strptime pid form w1 = Inr (w3, SavedCorrected)" and
    r3: "ledger w3 = ledger w @ [row3]" "r_id row3 = pid"
    "files w3 (r_ocr_text_path row3) = Some (TextFile ocr)" "pending w3 pid = None"
    by auto
  have first: "\<exists>w2 row.
        confirm pid w1 = (w2, Saved) \<and> ledger w2 = ledger w @ [row] \<and> r_id row = pid \<and>
        files w2 (r_ocr_text_path row) = Some (TextFile ocr) \<and> pending w2 pid = None \<and>
        confirm pid w2 = (w2, SessionExpired) \<and>
        on_submit db strptime pid form w2 = Inr (w2, SessionNotFound)"
    using c2 r2 stale_draft[OF r2(4)] by blast
  have second: "\<exists>w3 row.
        on_submit db strptime pid form w1 = Inr (w3, SavedCorrected) \<and>
        ledger w3 = ledger w @ [row] \<and> r_id row = pid \<and>
        files w3 (r_ocr_text_path row) = Some (TextFile ocr) \<and> pending w3 pid = None \<and>
        confirm pid w3 = (w3, SessionExpired) \<and>
        on_submit db strptime pid form' w3 = Inr (w3, SessionNotFound)"
    using s3 r3 stale_draft[OF r3(4)] by blast
  from w1 p l first second show ?thesis by blast
qed

text \<open>
  The life of one draft: an attachment with a short text is handled in a session that
  already holds another draft.
\<close>

theorem draft_lifecycle_witness:
  "within_int_limit basic_db (cp ''total 4,500'') \<and>
   (\<exists>w1 p.
      process_attachment basic_db sample_vendors (cp ''d2'') (cp ''Receipt.PNG'') [137, 80]
        (cp ''total 4,500'') sample_world = Inr w1 \<and>
      pending w1 (cp ''d2'') = Some p \<and> p_id p = cp ''d2'' \<and> p_ocr_text p = cp ''total 4,500'' \<and>
      ledger w1 = [] \<and>
      (\<exists>w2 row.
         confirm (cp ''d2'') w1 = (w2, Saved) \<and> ledger w2 = [row] \<and> r_id row = cp ''d2'' \<and>
         pending w2 (cp ''d2'') = None \<and>
         confirm (cp ''d2'') w2 = (w2, SessionExpired) \<and>
         on_submit basic_db (\<lambda>dt. None) (cp ''d2'') sample_form w2 = Inr (w2, SessionNotFound)) \<and>
      (\<exists>w3 row.
         on_submit basic_db (\<lambda>dt. None) (cp ''d2'') sample_form w1 = Inr (w3, SavedCorrected) \<and>
         ledger w3 = [row] \<and> r_id row = cp ''d2'' \<and> pending w3 (cp ''d2'') = None \<and>
         confirm (cp ''d2'') w3 = (w3, SessionExpired) \<and>
         on_submit basic_db (\<lambda>dt. None) (cp ''d2'') sample_form w3 = Inr (w3, SessionNotFound)))"
proof -
  have short: "within_int_limit basic_db (cp ''total 4,500'')"
    by (rule short_text_within_limit) (simp add: cp_def)
  have l: "ledger sample_world = []"
    by (simp add: sample_world_def)
  from draft_lifecycle[OF short, of sample_vendors "cp ''d2''" "cp ''Receipt.PNG''" "[137, 80]"
      sample_world "\<lambda>dt. None" sample_form sample_form]
  have "\<exists>w1 p.
      process_attachment basic_db sample_vendors (cp ''d2'') (cp ''Receipt.PNG'') [137, 80]
        (cp ''total 4,500'') sample_world = Inr w1 \<and>
      pending w1 (cp ''d2'') = Some p \<and> p_id p = cp ''d2'' \<and> p_ocr_text p = cp ''total 4,500'' \<and>
      ledger w1 = [] \<and>
      (\<exists>w2 row.
         confirm (cp ''d2'') w1 = (w2, Saved) \<and> ledger w2 = [row] \<and> r_id row = cp ''d2'' \<and>
         pending w2 (cp ''d2'') = None \<and>
         confirm (cp ''d2'') w2 = (w2, SessionExpired) \<and>
         on_submit basic_db (\<lambda>dt. None) (cp ''d2'') sample_form w2 = Inr (w2, SessionNotFound)) \<and>
      (\<exists>w3 row.
         on_submit basic_db (\<lambda>dt. None) (cp ''d2'') sample_form w1 = Inr (w3, SavedCorrected) \<and>
         ledger w3 = [row] \<and> r_id row = cp ''d2'' \<and> pending w3 (cp ''d2'') = None \<and>
         confirm (cp ''d2'') w3 = (w3, SessionExpired) \<and>
         on_submit basic_db (\<lambda>dt. None) (cp ''d2'') sample_form w3 = Inr (w3, SessionNotFound))"
    unfolding l append_Nil by blast
  with short show ?thesis by (rule conjI)
qed

lemma rfind_found:
  assumes "c \<in> set s"
  shows "0 \<le> rfind c s \<and> rfind c s < int (length s) \<and> s ! nat (rfind c s) = c"
proof -
  define k where "k = length (takeWhile (\<lambda>x. x \<noteq> c) (rev s))"
  have "takeWhile (\<lambda>x. x \<noteq> c) (rev s) @ dropWhile (\<lambda>x. x \<noteq> c) (rev s) = rev s"
    by simp
  then have sum: "k + length (dropWhile (\<lambda>x. x \<noteq> c) (rev s)) = length s"
    unfolding k_def by (metis length_append length_rev)
  have "dropWhile (\<lambda>x. x \<noteq> c) (rev s) \<noteq> []"
    using assms by (simp add: dropWhile_eq_Nil_conv)
  then have "0 < length (dropWhile (\<lambda>x. x \<noteq> c) (rev s))"
    by (metis length_greater_0_conv)
  with sum have k: "k < length s" by linarith
  then have "k < length (rev s)" by simp
  from nth_length_takeWhile[of "\<lambda>x. x \<noteq> c" "rev s", folded k_def, OF this]
  have "rev s ! k = c" by simp
  with k have "s ! (length s - Suc k) = c"
    by (simp add: rev_nth)
  moreover have "rfind c s = int (length s) - 1 - int k"
    using assms by (simp add: rfind_def k_def)
  moreover from k have "nat (int (length s) - 1 - int k) = length s - Suc k"
    by linarith
  ultimately show ?thesis
    using k by simp
qed

lemma rfind_lower_bound: "- 1 \<le> rfind c s"
  using rfind_found[of c s] by (cases "c \<in> set s") (simp_all add: rfind_def)

lemma splitext_parts:
  "fst (splitext p) @ snd (splitext p) = p \<and>
   (snd (splitext p) = [] \<or> hd (snd (splitext p)) = 0x2E)"
proof (cases "rfind 0x2F p < rfind 0x2E p")
  case True
  with rfind_lower_bound[of "0x2F" p] have "rfind 0x2E p \<noteq> - 1" by linarith
  then have "0x2E \<in> set p"
    by (auto simp: rfind_def split: if_splits)
  from rfind_found[OF this] have "nat (rfind 0x2E p) < length p" "p ! nat (rfind 0x2E p) = 0x2E"
    by (simp_all add: nat_less_iff)
  then have "hd (drop (nat (rfind 0x2E p)) p) = 0x2E"
    by (simp add: hd_drop_conv_nth)
  then show ?thesis
    by (simp add: splitext_def Let_def)
next
  case False
  then show ?thesis
    by (simp add: splitext_def Let_def)
qed

text \<open>
  C9, as the code has it. When an attachment is handled (its text being within the
  limit of the conversion), the file name of the draft is the identifier of the draft
  followed by the lower-cased extension of the attachment name (the part from the last
  dot of the name on), or by \<open>.jpg\<close> when that is empty; the stem of the attachment name
  is not kept. A confirmation writes this file name into the row.
\<close>

theorem draft_filename_is_id_and_extension:
  assumes "within_int_limit db ocr"
  shows "\<exists>w1 p root ext.
     process_attachment db vendor_patterns pid att data ocr w = Inr w1 \<and>
     pending w1 pid = Some p \<and>
     (root, ext) = splitext att \<and> att = root @ ext \<and> (ext = [] \<or> hd ext = 0x2E) \<and>
     p_filename p = pid @ (if str_lower db ext = [] then cp ''.jpg'' else str_lower db ext) \<and>
     map r_filename (ledger (fst (confirm pid w1))) = map r_filename (ledger w) @ [p_filename p]"
proof -
  from process_attachment_stores[OF assms, of vendor_patterns pid att data w]
  obtain w1 p where
    w1: "process_attachment db vendor_patterns pid att data ocr w = Inr w1" and
    p: "pending w1 pid = Some p" "p_filename p = draft_filename db pid att" and
    l: "ledger w1 = ledger w"
    by auto
  obtain root ext where re: "(root, ext) = splitext att"
    by (cases "splitext att") simp
  from splitext_parts[of att] have parts: "att = root @ ext" "ext = [] \<or> hd ext = 0x2E"
    by (simp_all add: re[symmetric])
  have name: "p_filename p = pid @ (if str_lower db ext = [] then cp ''.jpg'' else str_lower db ext)"
    using p(2) by (simp add: draft_filename_def Let_def re[symmetric])
  have "map r_filename (ledger (fst (confirm pid w1))) = map r_filename (ledger w) @ [p_filename p]"
    using confirm_live[OF p(1)] l by (simp add: save_row_fields)
  with w1 p(1) re parts name show ?thesis by blast
qed

theorem draft_filename_is_id_and_extension_witness:
  "within_int_limit basic_db (cp ''total 4,500'') \<and>
   splitext (cp ''Receipt.PNG'') = (cp ''Receipt'', cp ''.PNG'') \<and>
   (\<exists>w1 p.
      process_attachment basic_db sample_vendors (cp ''0f3a'') (cp ''Receipt.PNG'') [137, 80]
        (cp ''total 4,500'') sample_world = Inr w1 \<and>
      pending w1 (cp ''0f3a'') = Some p \<and> p_filename p = cp ''0f3a.png'' \<and>
      map r_filename (ledger (fst (confirm (cp ''0f3a'') w1))) = [cp ''0f3a.png''])"
proof -
  have short: "within_int_limit basic_db (cp ''total 4,500'')"
    by (rule short_text_within_limit) (simp add: cp_def)
  have l: "ledger sample_world = []"
    by (simp add: sample_world_def)
  have parts: "splitext (cp ''Receipt.PNG'') = (cp ''Receipt'', cp ''.PNG'')"
    by code_simp
  have low: "str_lower basic_db (cp ''.PNG'') = cp ''.png''"
    by code_simp
  have name: "cp ''0f3a'' @ cp ''.png'' = cp ''0f3a.png''" "cp ''.png'' \<noteq> []"
    by (simp_all add: cp_def)
  from draft_filename_is_id_and_extension[OF short, of sample_vendors "cp ''0f3a''"
      "cp ''Receipt.PNG''" "[137, 80]" sample_world]
  obtain w1 p root ext where
    w1: "process_attachment basic_db sample_vendors (cp ''0f3a'') (cp ''Receipt.PNG'') [137, 80]
           (cp ''total 4,500'') sample_world = Inr w1" and
    p: "pending w1 (cp ''0f3a'') = Some p" and
    re: "(root, ext) = splitext (cp ''Receipt.PNG'')" and
    f: "p_filename p =
          cp ''0f3a'' @ (if str_lower basic_db ext = [] then cp ''.jpg'' else str_lower basic_db ext)" and
    r: "map r_filename (ledger (fst (confirm (cp ''0f3a'') w1)))
          = map r_filename (ledger sample_world) @ [p_filename p]"
    by blast
  from re parts have "ext = cp ''.PNG''" by simp
  with f low name have "p_filename p = cp ''0f3a.png''" by simp
  with w1 p r l short parts show ?thesis by auto
qed

text \<open>
  The file name is not the name of the attachment: for the attachment \<open>Receipt.PNG\<close> and
  the identifier \<open>0f3a\<close> it is \<open>0f3a.png\<close>.
\<close>

theorem source_filename_counterexample:
  "draft_filename basic_db (cp ''0f3a'') (cp ''Receipt.PNG'') = cp ''0f3a.png'' \<and>
   draft_filename basic_db (cp ''0f3a'') (cp ''Receipt.PNG'') \<noteq> cp ''Receipt.PNG''"
  by code_simp


end
